theory Spec2Isabelle
  imports Main "HOL-Library.Monad_Syntax"
begin

section \<open>Memory model\<close>

text \<open>
  Nodes live at addresses; a pointer is an address or \<open>nullptr\<close> (\<open>None\<close>).
  The store maps every live node to its two link fields.  Every operation returns
  \<open>None\<close> where the C++ program has undefined behaviour: dereferencing
  \<open>nullptr\<close> or a node that is not alive.
\<close>

type_synonym addr = nat
type_synonym ptr = "addr option"

record base_list_element =
  prev :: ptr
  "next" :: ptr

type_synonym heap = "addr \<rightharpoonup> base_list_element"

text \<open>\<open>p->prev\<close> and \<open>p->next\<close> as reads, \<open>p->prev = v\<close> and \<open>p->next = v\<close> as writes.\<close>

definition get_prev :: "heap \<Rightarrow> ptr \<Rightarrow> ptr option" where
  "get_prev h p = (case p of None \<Rightarrow> None | Some a \<Rightarrow> map_option prev (h a))"

definition get_next :: "heap \<Rightarrow> ptr \<Rightarrow> ptr option" where
  "get_next h p = (case p of None \<Rightarrow> None | Some a \<Rightarrow> map_option next (h a))"

definition set_prev :: "heap \<Rightarrow> ptr \<Rightarrow> ptr \<Rightarrow> heap option" where
  "set_prev h p v =
     (case p of None \<Rightarrow> None
      | Some a \<Rightarrow> (case h a of None \<Rightarrow> None | Some e \<Rightarrow> Some (h(a \<mapsto> e\<lparr>prev := v\<rparr>))))"

definition set_next :: "heap \<Rightarrow> ptr \<Rightarrow> ptr \<Rightarrow> heap option" where
  "set_next h p v =
     (case p of None \<Rightarrow> None
      | Some a \<Rightarrow> (case h a of None \<Rightarrow> None | Some e \<Rightarrow> Some (h(a \<mapsto> e\<lparr>next := v\<rparr>))))"

section \<open>The link node: \<open>base_list_element\<close>\<close>

text \<open>\<open>prev = next = nullptr;\<close>\<close>

definition unlink :: "heap \<Rightarrow> ptr \<Rightarrow> heap option" where
  "unlink h this = do {
     h1 \<leftarrow> set_next h this None;
     set_prev h1 this None }"

text \<open>
  \<open>res = next; prev->next = next; next->prev = prev; unlink(); return res;\<close>
  Each statement reads the fields of \<open>this\<close> again, as the members are read in C++.
\<close>

definition remove_elem :: "heap \<Rightarrow> ptr \<Rightarrow> (heap \<times> ptr) option" where
  "remove_elem h this = do {
     res \<leftarrow> get_next h this;
     p \<leftarrow> get_prev h this;
     n \<leftarrow> get_next h this;
     h1 \<leftarrow> set_next h p n;
     n' \<leftarrow> get_next h1 this;
     p' \<leftarrow> get_prev h1 this;
     h2 \<leftarrow> set_prev h1 n' p';
     h3 \<leftarrow> unlink h2 this;
     Some (h3, res) }"

definition is_linked :: "heap \<Rightarrow> ptr \<Rightarrow> bool option" where
  "is_linked h this = do { p \<leftarrow> get_prev h this; Some (p \<noteq> None) }"

text \<open>\<open>prev = next = this;\<close>\<close>

definition tie :: "heap \<Rightarrow> ptr \<Rightarrow> heap option" where
  "tie h this = do {
     h1 \<leftarrow> set_next h this this;
     set_prev h1 this this }"

text \<open>
  The default constructor: a new node at a fresh address, both fields \<open>nullptr\<close>
  by their default member initialisers.
\<close>

definition base_list_element_ctor :: "heap \<Rightarrow> addr \<Rightarrow> heap option" where
  "base_list_element_ctor h this =
     (if h this = None then Some (h(this \<mapsto> \<lparr>prev = None, next = None\<rparr>)) else None)"

text \<open>
  The move constructor \<open>base_list_element(base_list_element&& other)\<close>.

  The mixin \<open>list_element<Tag>\<close> adds no field to the link node.  Its move constructor is
  \<open>list_element(list_element&& other) : base_list_element(other) {}\<close>: the argument
  \<open>other\<close> is an lvalue there, so the initialiser names the copy constructor of the base,
  which is deleted.  It has no model: only the base constructor can run.
\<close>

definition base_list_element_move :: "heap \<Rightarrow> addr \<Rightarrow> addr \<Rightarrow> heap option" where
  "base_list_element_move h this other = do {
     h0 \<leftarrow> base_list_element_ctor h this;
     op \<leftarrow> get_prev h0 (Some other);
     h1 \<leftarrow> (if op \<noteq> None then set_next h0 op (Some this) else Some h0);
     on \<leftarrow> get_next h1 (Some other);
     h2 \<leftarrow> (if on \<noteq> None then set_prev h1 on (Some this) else Some h1);
     on' \<leftarrow> get_next h2 (Some other);
     h3 \<leftarrow> set_next h2 (Some this) on';
     op' \<leftarrow> get_prev h3 (Some other);
     h4 \<leftarrow> set_prev h3 (Some this) op';
     unlink h4 (Some other) }"

text \<open>
  The destructor: \<open>if (is_linked()) remove(); unlink();\<close>, after which the node's
  storage is released.
\<close>

definition base_list_element_dtor :: "heap \<Rightarrow> addr \<Rightarrow> heap option" where
  "base_list_element_dtor h this = do {
     l \<leftarrow> is_linked h (Some this);
     h1 \<leftarrow> (if l then map_option fst (remove_elem h (Some this)) else Some h);
     h2 \<leftarrow> unlink h1 (Some this);
     Some (h2(this := None)) }"

section \<open>Iterators\<close>

text \<open>An iterator holds a node pointer; \<open>++\<close> and \<open>--\<close> follow \<open>next\<close> and \<open>prev\<close>.\<close>

definition iter_inc :: "heap \<Rightarrow> ptr \<Rightarrow> ptr option" where
  "iter_inc h it = get_next h it"

definition iter_dec :: "heap \<Rightarrow> ptr \<Rightarrow> ptr option" where
  "iter_dec h it = get_prev h it"

section \<open>The list container\<close>

text \<open>
  A list object holds exactly its sentinel \<open>sential\<close>; the list is identified with the
  address of that node.
\<close>

definition end_list :: "addr \<Rightarrow> ptr" where
  "end_list this = Some this"

definition begin_list :: "heap \<Rightarrow> addr \<Rightarrow> ptr option" where
  "begin_list h this = get_next h (Some this)"

definition empty_list :: "heap \<Rightarrow> addr \<Rightarrow> bool option" where
  "empty_list h this = do { b \<leftarrow> begin_list h this; Some (b = end_list this) }"

definition insert_after :: "heap \<Rightarrow> ptr \<Rightarrow> ptr \<Rightarrow> (heap \<times> ptr) option" where
  "insert_after h first second = do {
     third \<leftarrow> get_next h first;
     l \<leftarrow> is_linked h second;
     h1 \<leftarrow> (if l then map_option fst (remove_elem h second) else Some h);
     h2 \<leftarrow> set_next h1 first second;
     h3 \<leftarrow> set_prev h2 second first;
     h4 \<leftarrow> set_next h3 second third;
     h5 \<leftarrow> set_prev h4 third second;
     Some (h5, second) }"

definition erase :: "heap \<Rightarrow> ptr \<Rightarrow> (heap \<times> ptr) option" where
  "erase h element = remove_elem h element"

text \<open>
  \<open>insert(pos, element)\<close>: \<open>element\<close> is a reference, hence never null.  The guard
  \<open>second == third || second == third->prev\<close> reads \<open>third->prev\<close> only when the first
  comparison fails.
\<close>

definition insert_elem :: "heap \<Rightarrow> ptr \<Rightarrow> addr \<Rightarrow> (heap \<times> ptr) option" where
  "insert_elem h pos element =
     (let third = pos; second = Some element in
      if second = third then Some (h, second)
      else do {
        tp \<leftarrow> get_prev h third;
        if second = tp then Some (h, second)
        else do {
          first \<leftarrow> get_prev h third;
          r \<leftarrow> insert_after h first second;
          Some (fst r, second) } })"

definition push_back :: "heap \<Rightarrow> addr \<Rightarrow> addr \<Rightarrow> heap option" where
  "push_back h this object = map_option fst (insert_elem h (end_list this) object)"

definition push_front :: "heap \<Rightarrow> addr \<Rightarrow> addr \<Rightarrow> heap option" where
  "push_front h this object = do {
     b \<leftarrow> begin_list h this;
     map_option fst (insert_elem h b object) }"

definition pop_back :: "heap \<Rightarrow> addr \<Rightarrow> heap option" where
  "pop_back h this = do {
     it \<leftarrow> iter_dec h (end_list this);
     map_option fst (erase h it) }"

definition pop_front :: "heap \<Rightarrow> addr \<Rightarrow> heap option" where
  "pop_front h this = do {
     b \<leftarrow> begin_list h this;
     map_option fst (erase h b) }"

text \<open>\<open>while (!empty()) pop_front();\<close> may run forever on a broken ring.\<close>

partial_function (option) untie_all :: "heap \<Rightarrow> addr \<Rightarrow> heap option" where
  "untie_all h this = do {
     e \<leftarrow> empty_list h this;
     if e then Some h
     else do { h' \<leftarrow> pop_front h this; untie_all h' this } }"

definition move_list :: "heap \<Rightarrow> addr \<Rightarrow> addr \<Rightarrow> heap option" where
  "move_list h this other = do {
     e \<leftarrow> empty_list h other;
     if \<not> e then do {
       last \<leftarrow> get_prev h (Some other);
       r1 \<leftarrow> remove_elem h (Some other);
       r2 \<leftarrow> insert_after (fst r1) last (Some this);
       tie (fst r2) (Some other) }
     else tie h (Some this) }"

text \<open>
  Constructors, move assignment and destructor of the list.  The member \<open>sential\<close> is
  default-constructed before the body runs and destroyed after the destructor's body.
\<close>

definition list_ctor :: "heap \<Rightarrow> addr \<Rightarrow> heap option" where
  "list_ctor h this = do {
     h0 \<leftarrow> base_list_element_ctor h this;
     tie h0 (Some this) }"

definition list_move_ctor :: "heap \<Rightarrow> addr \<Rightarrow> addr \<Rightarrow> heap option" where
  "list_move_ctor h this other = do {
     h0 \<leftarrow> base_list_element_ctor h this;
     move_list h0 this other }"

definition list_move_assign :: "heap \<Rightarrow> addr \<Rightarrow> addr \<Rightarrow> heap option" where
  "list_move_assign h this other = do {
     h1 \<leftarrow> untie_all h this;
     move_list h1 this other }"

definition list_dtor :: "heap \<Rightarrow> addr \<Rightarrow> heap option" where
  "list_dtor h this = do {
     h1 \<leftarrow> untie_all h this;
     base_list_element_dtor h1 this }"

text \<open>
  \<open>splice(position, list&, begin, end)\<close>: the second parameter is unnamed in the source
  and never read.
\<close>

definition splice :: "heap \<Rightarrow> ptr \<Rightarrow> addr \<Rightarrow> ptr \<Rightarrow> ptr \<Rightarrow> heap option" where
  "splice h position other begin_it end_it =
     (if begin_it = end_it then Some h
      else do {
        let pos = position;
        let first = begin_it;
        let second = end_it;
        last \<leftarrow> get_prev h second;
        fp \<leftarrow> get_prev h first;
        h1 \<leftarrow> set_next h fp second;
        fp' \<leftarrow> get_prev h1 first;
        h2 \<leftarrow> set_prev h1 second fp';
        pp \<leftarrow> get_prev h2 pos;
        h3 \<leftarrow> set_next h2 pp first;
        pp' \<leftarrow> get_prev h3 pos;
        h4 \<leftarrow> set_prev h3 first pp';
        h5 \<leftarrow> set_next h4 last pos;
        set_prev h5 pos last })"

text \<open>
  The same function with a count of the reference writes it performs: every assignment
  to a \<open>next\<close> or \<open>prev\<close> field adds one.
\<close>

definition counted :: "nat \<Rightarrow> heap option \<Rightarrow> (heap \<times> nat) option" where
  "counted n r = map_option (\<lambda>h. (h, Suc n)) r"

definition splice_count :: "heap \<Rightarrow> ptr \<Rightarrow> addr \<Rightarrow> ptr \<Rightarrow> ptr \<Rightarrow> (heap \<times> nat) option" where
  "splice_count h position other begin_it end_it =
     (if begin_it = end_it then Some (h, 0)
      else do {
        let pos = position;
        let first = begin_it;
        let second = end_it;
        last \<leftarrow> get_prev h second;
        fp \<leftarrow> get_prev h first;
        (h1, n1) \<leftarrow> counted 0 (set_next h fp second);
        fp' \<leftarrow> get_prev h1 first;
        (h2, n2) \<leftarrow> counted n1 (set_prev h1 second fp');
        pp \<leftarrow> get_prev h2 pos;
        (h3, n3) \<leftarrow> counted n2 (set_next h2 pp first);
        pp' \<leftarrow> get_prev h3 pos;
        (h4, n4) \<leftarrow> counted n3 (set_prev h3 first pp');
        (h5, n5) \<leftarrow> counted n4 (set_next h4 last pos);
        counted n5 (set_prev h5 pos last) })"

text \<open>
  Forward iteration \<open>for (it = begin(); it != end(); ++it)\<close>, collecting the nodes
  visited.
\<close>

partial_function (option) iterate :: "heap \<Rightarrow> ptr \<Rightarrow> ptr \<Rightarrow> addr list option" where
  "iterate h it e =
     (if it = e then Some []
      else (case it of None \<Rightarrow> None
            | Some a \<Rightarrow> do {
                n \<leftarrow> iter_inc h it;
                r \<leftarrow> iterate h n e;
                Some (a # r) }))"

definition to_list :: "heap \<Rightarrow> addr \<Rightarrow> addr list option" where
  "to_list h this = do { b \<leftarrow> begin_list h this; iterate h b (end_list this) }"

section \<open>Abstraction: rings of nodes and the sequence a list holds\<close>

text \<open>The two link fields as functions of the address; a node that is not alive has none.\<close>

definition nxt :: "heap \<Rightarrow> addr \<Rightarrow> ptr" where
  "nxt h a = (case h a of None \<Rightarrow> None | Some e \<Rightarrow> next e)"

definition prv :: "heap \<Rightarrow> addr \<Rightarrow> ptr" where
  "prv h a = (case h a of None \<Rightarrow> None | Some e \<Rightarrow> prev e)"

text \<open>\<open>x\<close> and \<open>y\<close> are neighbours: \<open>x->next == y\<close> and \<open>y->prev == x\<close>.\<close>

definition lnk :: "(addr \<Rightarrow> ptr) \<Rightarrow> (addr \<Rightarrow> ptr) \<Rightarrow> addr \<Rightarrow> addr \<Rightarrow> bool" where
  "lnk N P x y = (N x = Some y \<and> P y = Some x)"

text \<open>
  The list with sentinel \<open>s\<close> holds the elements \<open>xs\<close>, in this order: the ring runs
  from the sentinel through \<open>xs\<close> back to the sentinel, and no node occurs twice.
\<close>

definition is_list :: "heap \<Rightarrow> addr \<Rightarrow> addr list \<Rightarrow> bool" where
  "is_list h s xs = (distinct (s # xs) \<and> successively (lnk (nxt h) (prv h)) (s # xs @ [s]))"

text \<open>
  The store is well formed: every live node is unlinked (both fields null) or both of
  its neighbours are live and point back to it.
\<close>

definition wf :: "heap \<Rightarrow> bool" where
  "wf h = (\<forall>a \<in> dom h.
     (prv h a = None \<longleftrightarrow> nxt h a = None) \<and>
     (case prv h a of None \<Rightarrow> True | Some p \<Rightarrow> nxt h p = Some a) \<and>
     (case nxt h a of None \<Rightarrow> True | Some n \<Rightarrow> prv h n = Some a))"

definition wfF :: "(addr \<Rightarrow> ptr) \<Rightarrow> (addr \<Rightarrow> ptr) \<Rightarrow> bool" where
  "wfF N P = ((\<forall>a b. N a = Some b \<longleftrightarrow> P b = Some a) \<and> (\<forall>a. N a = None \<longleftrightarrow> P a = None))"

text \<open>The stores that the writes of the operations produce.\<close>

definition wr_next :: "heap \<Rightarrow> addr \<Rightarrow> ptr \<Rightarrow> heap" where
  "wr_next h a v = h(a \<mapsto> (the (h a))\<lparr>next := v\<rparr>)"

definition wr_prev :: "heap \<Rightarrow> addr \<Rightarrow> ptr \<Rightarrow> heap" where
  "wr_prev h a v = h(a \<mapsto> (the (h a))\<lparr>prev := v\<rparr>)"

definition unlinked :: "heap \<Rightarrow> addr \<Rightarrow> heap" where
  "unlinked h x = wr_prev (wr_next h x None) x None"

definition removed :: "heap \<Rightarrow> addr \<Rightarrow> heap" where
  "removed h x =
     unlinked (wr_prev (wr_next h (the (prv h x)) (nxt h x)) (the (nxt h x)) (prv h x)) x"

definition linked :: "heap \<Rightarrow> addr \<Rightarrow> addr \<Rightarrow> addr \<Rightarrow> heap" where
  "linked h f x t =
     wr_prev (wr_next (wr_prev (wr_next h f (Some x)) x (Some f)) x (Some t)) t (Some x)"

text \<open>The store after the six writes of \<open>splice\<close>.\<close>

definition spliced :: "heap \<Rightarrow> addr \<Rightarrow> addr \<Rightarrow> addr \<Rightarrow> heap" where
  "spliced h q f e =
     (let l = the (prv h e); fp = the (prv h f);
          h2 = wr_prev (wr_next h fp (Some e)) e (Some fp);
          pp = the (prv h2 q)
      in wr_prev (wr_next (wr_prev (wr_next h2 pp (Some f)) f (Some pp)) l (Some q)) q (Some l))"

text \<open>
  The stores after \<open>tie\<close>, after the default constructor and after the move constructor of a
  node whose source is linked.
\<close>

definition tied :: "heap \<Rightarrow> addr \<Rightarrow> heap" where
  "tied h x = wr_prev (wr_next h x (Some x)) x (Some x)"

definition allocated :: "heap \<Rightarrow> addr \<Rightarrow> heap" where
  "allocated h a = h(a \<mapsto> \<lparr>prev = None, next = None\<rparr>)"

definition moved :: "heap \<Rightarrow> addr \<Rightarrow> addr \<Rightarrow> heap" where
  "moved h d x =
     (let h0 = allocated h d; p = the (prv h x); n = the (nxt h x) in
      unlinked (wr_prev (wr_next (wr_prev (wr_next h0 p (Some d)) n (Some d)) d (Some n)) d (Some p)) x)"

section \<open>What the operations mean for the sequence a list holds\<close>

text \<open>
  \<open>ins_before pos x ys\<close> puts \<open>x\<close> immediately before \<open>pos\<close> in \<open>ys\<close>, and at the end
  when \<open>pos\<close> is not in \<open>ys\<close> (the position \<open>end()\<close>).  \<open>spec_insert\<close> is
  \<open>insert(pos, x)\<close> on the sequence: \<open>x\<close> leaves its old place and goes before \<open>pos\<close>.
  \<open>detached h x\<close> is the store after \<open>if (x.is_linked()) x.remove()\<close>.
\<close>

definition ins_before :: "addr \<Rightarrow> addr \<Rightarrow> addr list \<Rightarrow> addr list" where
  "ins_before pos x ys = takeWhile (\<lambda>y. y \<noteq> pos) ys @ x # dropWhile (\<lambda>y. y \<noteq> pos) ys"

definition spec_insert :: "addr \<Rightarrow> addr \<Rightarrow> addr list \<Rightarrow> addr list" where
  "spec_insert pos x xs = (if x = pos then xs else ins_before pos x (remove1 x xs))"

definition detached :: "heap \<Rightarrow> addr \<Rightarrow> heap" where
  "detached h x = (if prv h x = None then h else removed h x)"

text \<open>
  The operations of a list as data, how the code runs them, what each means for the
  sequence the list holds, and the precondition of each: an inserted element is alive
  and is no sentinel of this list, a position is the sentinel or a member, an erased
  position is a member, and \<open>pop\<close> needs a non-empty list.
\<close>

datatype list_op = Push_front addr | Push_back addr | Insert addr addr | Erase addr | Pop_front | Pop_back

fun exec_op :: "addr \<Rightarrow> heap \<Rightarrow> list_op \<Rightarrow> heap option" where
  "exec_op s h (Push_front x) = push_front h s x"
| "exec_op s h (Push_back x) = push_back h s x"
| "exec_op s h (Insert pos x) = map_option fst (insert_elem h (Some pos) x)"
| "exec_op s h (Erase pos) = map_option fst (erase h (Some pos))"
| "exec_op s h Pop_front = pop_front h s"
| "exec_op s h Pop_back = pop_back h s"

fun exec_ops :: "addr \<Rightarrow> heap \<Rightarrow> list_op list \<Rightarrow> heap option" where
  "exec_ops s h [] = Some h"
| "exec_ops s h (a # as) = exec_op s h a \<bind> (\<lambda>h'. exec_ops s h' as)"

fun spec_op :: "list_op \<Rightarrow> addr list \<Rightarrow> addr list" where
  "spec_op (Push_front x) xs = x # remove1 x xs"
| "spec_op (Push_back x) xs = remove1 x xs @ [x]"
| "spec_op (Insert pos x) xs = spec_insert pos x xs"
| "spec_op (Erase pos) xs = remove1 pos xs"
| "spec_op Pop_front xs = tl xs"
| "spec_op Pop_back xs = butlast xs"

fun spec_ops :: "list_op list \<Rightarrow> addr list \<Rightarrow> addr list" where
  "spec_ops [] xs = xs"
| "spec_ops (a # as) xs = spec_ops as (spec_op a xs)"

fun op_pre :: "heap \<Rightarrow> addr \<Rightarrow> addr list \<Rightarrow> list_op \<Rightarrow> bool" where
  "op_pre h s xs (Push_front x) = (h x \<noteq> None \<and> x \<noteq> s)"
| "op_pre h s xs (Push_back x) = (h x \<noteq> None \<and> x \<noteq> s)"
| "op_pre h s xs (Insert pos x) = (pos \<in> set (s # xs) \<and> h x \<noteq> None \<and> x \<noteq> s)"
| "op_pre h s xs (Erase pos) = (pos \<in> set xs)"
| "op_pre h s xs Pop_front = (xs \<noteq> [])"
| "op_pre h s xs Pop_back = (xs \<noteq> [])"

fun ops_pre :: "heap \<Rightarrow> addr \<Rightarrow> addr list \<Rightarrow> list_op list \<Rightarrow> bool" where
  "ops_pre h s xs [] = True"
| "ops_pre h s xs (a # as) = (op_pre h s xs a \<and> ops_pre h s (spec_op a xs) as)"

section \<open>The public operations as calls\<close>

text \<open>
  Every public operation of the node and of the list as a call on the store;
  \<open>run_calls\<close> runs a sequence of calls as the code does.  \<open>call_pre\<close> names two conditions
  on the caller, which the code does not check: the source of a node's move constructor
  is alive and is not its own neighbour, and the position of a \<open>splice\<close> of a non-empty
  range is not the first node of the range.  \<open>calls_pre\<close> says that every call of a
  sequence meets them in the store where it runs.
\<close>

datatype call =
    Element_ctor addr
  | Element_move addr addr
  | Element_dtor addr
  | List_ctor addr
  | List_move_ctor addr addr
  | List_move_assign addr addr
  | List_dtor addr
  | List_insert ptr addr
  | List_erase ptr
  | List_push_back addr addr
  | List_push_front addr addr
  | List_pop_back addr
  | List_pop_front addr
  | List_splice ptr addr ptr ptr

fun run_call :: "heap \<Rightarrow> call \<Rightarrow> heap option" where
  "run_call h (Element_ctor a) = base_list_element_ctor h a"
| "run_call h (Element_move d x) = base_list_element_move h d x"
| "run_call h (Element_dtor x) = base_list_element_dtor h x"
| "run_call h (List_ctor s) = list_ctor h s"
| "run_call h (List_move_ctor d t) = list_move_ctor h d t"
| "run_call h (List_move_assign d t) = list_move_assign h d t"
| "run_call h (List_dtor s) = list_dtor h s"
| "run_call h (List_insert pos x) = map_option fst (insert_elem h pos x)"
| "run_call h (List_erase it) = map_option fst (erase h it)"
| "run_call h (List_push_back s x) = push_back h s x"
| "run_call h (List_push_front s x) = push_front h s x"
| "run_call h (List_pop_back s) = pop_back h s"
| "run_call h (List_pop_front s) = pop_front h s"
| "run_call h (List_splice pos other b e) = splice h pos other b e"

fun call_pre :: "heap \<Rightarrow> call \<Rightarrow> bool" where
  "call_pre h (Element_move d x) = (h x \<noteq> None \<and> prv h x \<noteq> Some x)"
| "call_pre h (List_splice pos other b e) = (b = e \<or> pos \<noteq> b)"
| "call_pre h c = True"

fun run_calls :: "heap \<Rightarrow> call list \<Rightarrow> heap option" where
  "run_calls h [] = Some h"
| "run_calls h (c # cs) = do { h' \<leftarrow> run_call h c; run_calls h' cs }"

fun calls_pre :: "heap \<Rightarrow> call list \<Rightarrow> bool" where
  "calls_pre h [] = True"
| "calls_pre h (c # cs) =
     (call_pre h c \<and> (case run_call h c of None \<Rightarrow> True | Some h' \<Rightarrow> calls_pre h' cs))"

text \<open>
  The node invariant: the two references of every live node are both null or both
  non-null.
\<close>

definition node_inv :: "heap \<Rightarrow> bool" where
  "node_inv h = (\<forall>e \<in> ran h. prev e = None \<longleftrightarrow> next e = None)"

section \<open>Example stores\<close>

text \<open>A list with sentinel \<open>0\<close> that holds the elements \<open>1\<close> and \<open>2\<close>, in this order.\<close>

definition ring3 :: heap where
  "ring3 = [0 \<mapsto> \<lparr>prev = Some 2, next = Some 1\<rparr>,
            1 \<mapsto> \<lparr>prev = Some 0, next = Some 2\<rparr>,
            2 \<mapsto> \<lparr>prev = Some 1, next = Some 0\<rparr>]"

text \<open>
  Two lists: the one with sentinel \<open>0\<close> holds \<open>1\<close> and \<open>2\<close>, the one with sentinel \<open>10\<close>
  holds \<open>11\<close>.
\<close>

definition two_lists :: heap where
  "two_lists = [0 \<mapsto> \<lparr>prev = Some 2, next = Some 1\<rparr>,
                1 \<mapsto> \<lparr>prev = Some 0, next = Some 2\<rparr>,
                2 \<mapsto> \<lparr>prev = Some 1, next = Some 0\<rparr>,
                10 \<mapsto> \<lparr>prev = Some 11, next = Some 11\<rparr>,
                11 \<mapsto> \<lparr>prev = Some 10, next = Some 10\<rparr>]"

text \<open>An empty list with sentinel \<open>0\<close> and three unlinked elements \<open>1\<close>, \<open>2\<close>, \<open>3\<close>.\<close>

definition three_elements :: heap where
  "three_elements = [0 \<mapsto> \<lparr>prev = Some 0, next = Some 0\<rparr>,
                     1 \<mapsto> \<lparr>prev = None, next = None\<rparr>,
                     2 \<mapsto> \<lparr>prev = None, next = None\<rparr>,
                     3 \<mapsto> \<lparr>prev = None, next = None\<rparr>]"

text \<open>
  The store that \<open>splice\<close> leaves when, in the list \<open>ring3\<close>, the range holding only \<open>1\<close>
  is spliced to the position of \<open>1\<close> itself: the node \<open>1\<close> is its own neighbour.
\<close>

definition broken :: heap where
  "broken = [0 \<mapsto> \<lparr>prev = Some 2, next = Some 1\<rparr>,
             1 \<mapsto> \<lparr>prev = Some 1, next = Some 1\<rparr>,
             2 \<mapsto> \<lparr>prev = Some 0, next = Some 0\<rparr>]"

text \<open>
  A session from the empty store: a list, two elements pushed, the list move-constructed,
  an element move-constructed and one destroyed, a push, a pop and a splice back into the
  first list.
\<close>

definition session :: "call list" where
  "session = [List_ctor 0, Element_ctor 1, Element_ctor 2, List_push_back 0 1,
     List_push_front 0 2, List_move_ctor 5 0, Element_move 6 1, Element_dtor 2, List_push_back 5 1,
     List_pop_front 5, List_splice (Some 0) 5 (Some 1) (Some 5)]"

text \<open>
  A session whose splice has \<open>pos == rangeBegin\<close>: a list holding \<open>1, 2, 3\<close>, the range
  \<open>[1, 3)\<close> spliced to the position of \<open>1\<close>, \<open>1\<close> erased, and the list move-constructed
  at \<open>5\<close>.
\<close>

definition session_splice_at_begin :: "call list" where
  "session_splice_at_begin = [List_ctor 0, Element_ctor 1, Element_ctor 2, Element_ctor 3,
     List_push_back 0 1, List_push_back 0 2, List_push_back 0 3,
     List_splice (Some 1) 0 (Some 1) (Some 3), List_erase (Some 1), List_move_ctor 5 0]"

text \<open>
  A session that move-constructs a node from a node that is its own neighbour, here the
  sentinel of the empty list \<open>0\<close>, and erases the new node.
\<close>

definition session_move_self_tied :: "call list" where
  "session_move_self_tied = [List_ctor 0, Element_move 5 0, List_erase (Some 5)]"

section \<open>Properties of the store and of rings\<close>

lemma heap_eqI:
  assumes "dom h = dom h'" "nxt h = nxt h'" "prv h = prv h'"
  shows "h = h'"
proof
  fix a
  have "(a \<in> dom h) = (a \<in> dom h')" using assms(1) by simp
  then have d: "(h a = None) = (h' a = None)" by (simp only: domIff) auto
  have n: "nxt h a = nxt h' a" using assms(2) by simp
  have p: "prv h a = prv h' a" using assms(3) by simp
  show "h a = h' a"
    using d n p by (cases "h a"; cases "h' a") (simp_all add: nxt_def prv_def)
qed

lemma nxt_wr_next [simp]: "nxt (wr_next h a v) = (nxt h)(a := v)"
  by (rule ext) (simp add: nxt_def wr_next_def)

lemma prv_wr_next [simp]: "a \<in> dom h \<Longrightarrow> prv (wr_next h a v) = prv h"
  by (rule ext) (auto simp: prv_def wr_next_def)

lemma nxt_wr_prev [simp]: "a \<in> dom h \<Longrightarrow> nxt (wr_prev h a v) = nxt h"
  by (rule ext) (auto simp: nxt_def wr_prev_def)

lemma prv_wr_prev [simp]: "prv (wr_prev h a v) = (prv h)(a := v)"
  by (rule ext) (simp add: prv_def wr_prev_def)

lemma dom_wr_next [simp]: "a \<in> dom h \<Longrightarrow> dom (wr_next h a v) = dom h"
  by (auto simp: wr_next_def)

lemma dom_wr_prev [simp]: "a \<in> dom h \<Longrightarrow> dom (wr_prev h a v) = dom h"
  by (auto simp: wr_prev_def)

lemma set_next_wr [simp]: "a \<in> dom h \<Longrightarrow> set_next h (Some a) v = Some (wr_next h a v)"
  by (auto simp: set_next_def wr_next_def)

lemma set_prev_wr [simp]: "a \<in> dom h \<Longrightarrow> set_prev h (Some a) v = Some (wr_prev h a v)"
  by (auto simp: set_prev_def wr_prev_def)

lemma get_next_nxt [simp]: "a \<in> dom h \<Longrightarrow> get_next h (Some a) = Some (nxt h a)"
  by (auto simp: get_next_def nxt_def)

lemma get_prev_prv [simp]: "a \<in> dom h \<Longrightarrow> get_prev h (Some a) = Some (prv h a)"
  by (auto simp: get_prev_def prv_def)

lemma nxt_dom: "nxt h a = Some b \<Longrightarrow> a \<in> dom h"
  by (auto simp: nxt_def split: option.splits)

lemma prv_dom: "prv h a = Some b \<Longrightarrow> a \<in> dom h"
  by (auto simp: prv_def split: option.splits)

text \<open>The effect of the primitive operations on the two link functions.\<close>

lemma unlink_eff [simp]: "x \<in> dom h \<Longrightarrow> unlink h (Some x) = Some (unlinked h x)"
  by (simp add: unlink_def unlinked_def)

lemma unlinked_simps [simp]:
  "x \<in> dom h \<Longrightarrow> nxt (unlinked h x) = (nxt h)(x := None)"
  "x \<in> dom h \<Longrightarrow> prv (unlinked h x) = (prv h)(x := None)"
  "x \<in> dom h \<Longrightarrow> dom (unlinked h x) = dom h"
  by (simp_all add: unlinked_def)

lemma remove_eff:
  assumes "prv h x = Some p" "nxt h x = Some n" "p \<in> dom h" "n \<in> dom h"
  shows "remove_elem h (Some x) = Some (removed h x, Some n)"
proof -
  have x: "x \<in> dom h" using assms(1) by (rule prv_dom)
  show ?thesis using assms x by (simp add: remove_elem_def removed_def)
qed

lemma removed_simps:
  assumes "prv h x = Some p" "nxt h x = Some n" "p \<in> dom h" "n \<in> dom h"
  shows "nxt (removed h x) = (nxt h)(p := Some n, x := None)"
    and "prv (removed h x) = (prv h)(n := Some p, x := None)"
    and "dom (removed h x) = dom h"
proof -
  have x: "x \<in> dom h" using assms(1) by (rule prv_dom)
  show "nxt (removed h x) = (nxt h)(p := Some n, x := None)"
    using assms x by (simp add: removed_def)
  show "prv (removed h x) = (prv h)(n := Some p, x := None)"
    using assms x by (simp add: removed_def)
  show "dom (removed h x) = dom h"
    using assms x by (simp add: removed_def)
qed

lemma links_frame:
  assumes "\<forall>u \<in> set (butlast zs). N' u = N u" "\<forall>v \<in> set (tl zs). P' v = P v"
  shows "successively (lnk N' P') zs = successively (lnk N P) zs"
  using assms by (induction zs rule: induct_list012) (auto simp: lnk_def)

lemma last_notin_butlast: "distinct zs \<Longrightarrow> zs \<noteq> [] \<Longrightarrow> last zs \<notin> set (butlast zs)"
  by (induction zs) (auto dest: in_set_butlastD)

lemma hd_notin_tl: "distinct zs \<Longrightarrow> zs \<noteq> [] \<Longrightarrow> hd zs \<notin> set (tl zs)"
  by (cases zs) auto

lemma links_remove:
  assumes L: "successively (lnk N P) (U @ x # V)"
    and ne: "U \<noteq> []" "V \<noteq> []"
    and d: "distinct U" "distinct V" "x \<notin> set U" "x \<notin> set V"
    and sep: "last U \<notin> set (butlast V)" "hd V \<notin> set (tl U)"
  shows "successively (lnk (N(last U := Some (hd V), x := None)) (P(hd V := Some (last U), x := None))) (U @ V)"
    and "N x = Some (hd V)" and "P x = Some (last U)"
proof -
  let ?N = "N(last U := Some (hd V), x := None)"
  let ?P = "P(hd V := Some (last U), x := None)"
  from L have LU: "successively (lnk N P) U" and LV: "successively (lnk N P) V"
    and px: "lnk N P (last U) x" and xn: "lnk N P x (hd V)"
    using ne by (auto simp: successively_append_iff successively_Cons)
  show "N x = Some (hd V)" using xn by (simp add: lnk_def)
  show "P x = Some (last U)" using px by (simp add: lnk_def)
  have "successively (lnk ?N ?P) U = successively (lnk N P) U"
    using d ne sep by (intro links_frame) (auto dest: in_set_butlastD last_notin_butlast list.set_sel(2))
  moreover have "successively (lnk ?N ?P) V = successively (lnk N P) V"
    using d ne sep by (intro links_frame) (auto dest: in_set_butlastD hd_notin_tl list.set_sel(2))
  moreover have "lnk ?N ?P (last U) (hd V)"
    using d ne by (auto simp: lnk_def)
  ultimately show "successively (lnk ?N ?P) (U @ V)"
    using LU LV ne by (simp add: successively_append_iff)
qed

lemma links_src:
  "successively (lnk N P) zs \<Longrightarrow> u \<in> set (butlast zs) \<Longrightarrow> \<exists>v \<in> set (tl zs). N u = Some v \<and> P v = Some u"
  by (induction zs rule: induct_list012) (auto simp: lnk_def split: if_splits)

lemma links_tgt:
  "successively (lnk N P) zs \<Longrightarrow> v \<in> set (tl zs) \<Longrightarrow> \<exists>u \<in> set (butlast zs). N u = Some v \<and> P v = Some u"
  by (induction zs rule: induct_list012) (auto simp: lnk_def split: if_splits)

lemma is_list_nxt:
  assumes "is_list h s xs" "u \<in> set (s # xs)"
  shows "\<exists>v \<in> set (s # xs). nxt h u = Some v \<and> prv h v = Some u"
proof -
  from assms(1) have "successively (lnk (nxt h) (prv h)) ((s # xs) @ [s])"
    by (simp add: is_list_def)
  from links_src[OF this, of u] assms(2) show ?thesis
    by (auto simp: butlast_append)
qed

lemma is_list_prv:
  assumes "is_list h s xs" "v \<in> set (s # xs)"
  shows "\<exists>u \<in> set (s # xs). nxt h u = Some v \<and> prv h v = Some u"
proof -
  from assms(1) have "successively (lnk (nxt h) (prv h)) (s # (xs @ [s]))"
    by (simp add: is_list_def)
  from links_tgt[OF this, of v] assms(2) show ?thesis
    by (auto simp: butlast_append split: if_splits)
qed

lemma is_list_dom: "is_list h s xs \<Longrightarrow> u \<in> set (s # xs) \<Longrightarrow> u \<in> dom h"
  using is_list_nxt nxt_dom by blast

lemma is_list_removed:
  assumes l: "is_list h s xs" and x: "x \<in> set xs"
  shows "\<exists>p n. prv h x = Some p \<and> nxt h x = Some n \<and> p \<in> dom h \<and> n \<in> dom h
           \<and> p \<noteq> x \<and> n \<noteq> x \<and> is_list (removed h x) s (remove1 x xs)"
proof -
  from x obtain A B where xs: "xs = A @ x # B" by (auto dest: split_list)
  from l have d: "distinct (s # A @ x # B)" by (simp add: is_list_def xs)
  let ?U = "s # A" and ?V = "B @ [s]"
  from l have L: "successively (lnk (nxt h) (prv h)) (?U @ x # ?V)"
    by (simp add: is_list_def xs)
  have "last ?U \<in> set ?U" by (rule last_in_set) simp
  moreover have "set ?U \<inter> set B = {}" using d by auto
  ultimately have sep1: "last ?U \<notin> set (butlast ?V)" by (simp only: butlast_snoc) blast
  have "hd ?V \<in> set ?V" by (rule hd_in_set) simp
  moreover have "set ?V \<inter> set A = {}" using d by auto
  ultimately have sep2: "hd ?V \<notin> set (tl ?U)" by (simp only: list.sel) blast
  note sep = sep1 sep2
  note R = links_remove[OF L _ _ _ _ _ _ sep]
  have n: "nxt h x = Some (hd ?V)" and p: "prv h x = Some (last ?U)"
    using R(2,3) d by auto
  have pd: "last ?U \<in> dom h" by (rule is_list_dom[OF l]) (auto simp: xs)
  have nd: "hd ?V \<in> dom h" by (rule is_list_dom[OF l]) (auto simp: xs hd_append)
  have "successively (lnk (nxt (removed h x)) (prv (removed h x))) (?U @ ?V)"
    unfolding removed_simps[OF p n pd nd] using R(1) d by auto
  moreover have "remove1 x xs = A @ B" using d by (simp add: xs remove1_append)
  ultimately have "is_list (removed h x) s (remove1 x xs)"
    using d by (simp add: is_list_def)
  moreover have "last ?U \<noteq> x" using \<open>last ?U \<in> set ?U\<close> d by auto
  moreover have "hd ?V \<noteq> x" using \<open>hd ?V \<in> set ?V\<close> d by auto
  ultimately show ?thesis using n p pd nd by blast
qed

lemma wf_iff: "wf h = wfF (nxt h) (prv h)"
proof
  assume w: "wf h"
  have 1: "prv h b = Some a" if "nxt h a = Some b" for a b
  proof -
    from that have "a \<in> dom h" by (rule nxt_dom)
    with w have "case nxt h a of None \<Rightarrow> True | Some n \<Rightarrow> prv h n = Some a"
      by (simp add: wf_def)
    with that show ?thesis by simp
  qed
  have 2: "nxt h a = Some b" if "prv h b = Some a" for a b
  proof -
    from that have "b \<in> dom h" by (rule prv_dom)
    with w have "case prv h b of None \<Rightarrow> True | Some p \<Rightarrow> nxt h p = Some b"
      by (simp add: wf_def)
    with that show ?thesis by simp
  qed
  have 3: "(nxt h a = None) = (prv h a = None)" for a
  proof (cases "a \<in> dom h")
    case True
    with w have "(prv h a = None) = (nxt h a = None)" by (simp add: wf_def)
    then show ?thesis by simp
  next
    case False
    then show ?thesis by (simp add: nxt_def prv_def domIff)
  qed
  show "wfF (nxt h) (prv h)" unfolding wfF_def
  proof (intro conjI allI)
    fix a b show "(nxt h a = Some b) = (prv h b = Some a)" using 1[of a b] 2[of b a] by (rule iffI)
  next
    fix a show "(nxt h a = None) = (prv h a = None)" by (rule 3)
  qed
next
  assume w: "wfF (nxt h) (prv h)"
  show "wf h" unfolding wf_def
  proof
    fix a assume "a \<in> dom h"
    from w have 1: "\<And>a b. (nxt h a = Some b) = (prv h b = Some a)"
      and 3: "(nxt h a = None) = (prv h a = None)"
      by (simp_all add: wfF_def)
    have p: "case prv h a of None \<Rightarrow> True | Some p \<Rightarrow> nxt h p = Some a"
      by (cases "prv h a") (simp_all add: 1)
    have n: "case nxt h a of None \<Rightarrow> True | Some n \<Rightarrow> prv h n = Some a"
    proof (cases "nxt h a")
      case None then show ?thesis by simp
    next
      case (Some n)
      then have "prv h n = Some a" by (simp only: 1[symmetric])
      with Some show ?thesis by simp
    qed
    from 3 p n show "(prv h a = None) = (nxt h a = None) \<and>
         (case prv h a of None \<Rightarrow> True | Some p \<Rightarrow> nxt h p = Some a) \<and>
         (case nxt h a of None \<Rightarrow> True | Some n \<Rightarrow> prv h n = Some a)"
      by simp
  qed
qed

lemma wfF_remove:
  assumes "wfF N P" "N x = Some n" "P x = Some p"
  shows "wfF (N(p := Some n, x := None)) (P(n := Some p, x := None))"
  using assms unfolding wfF_def fun_upd_apply
  by (smt (verit) option.inject option.distinct(1))

lemma wfF_link:
  assumes "wfF N P" "N x = None" "N f = Some t"
  shows "wfF (N(f := Some x, x := Some t)) (P(x := Some f, t := Some x))"
  using assms unfolding wfF_def fun_upd_apply
  by (smt (verit) option.inject option.distinct(1))

lemma wfF_tie:
  assumes "wfF N P" "N x = None"
  shows "wfF (N(x := Some x)) (P(x := Some x))"
  using assms unfolding wfF_def fun_upd_apply
  by (smt (verit) option.inject option.distinct(1))

lemma wfF_splice:
  assumes "wfF N P" "P f = Some fp" "P e = Some l" "P q = Some pp" "f \<noteq> e" "q \<noteq> f" "q \<noteq> e"
  shows "wfF (N(fp := Some e, pp := Some f, l := Some q)) (P(e := Some fp, f := Some pp, q := Some l))"
  using assms unfolding wfF_def fun_upd_apply
  by (smt (verit) option.inject option.distinct(1))

lemma wfF_move:
  assumes "wfF N P" "N x = Some n" "P x = Some p" "N d = None" "p \<noteq> x"
  shows "wfF (N(p := Some d, d := Some n, x := None)) (P(n := Some d, d := Some p, x := None))"
  using assms unfolding wfF_def fun_upd_apply
  by (smt (verit) option.inject option.distinct(1))

lemma links_frame2:
  assumes "successively (lnk N P) zs"
    and "\<And>u. u \<in> set (butlast zs) \<Longrightarrow> N' u = N u"
    and "\<And>v. v \<in> set (tl zs) \<Longrightarrow> P' v = P v"
  shows "successively (lnk N' P') zs"
  using assms links_frame[of zs N' N P' P] by simp

lemma links_insert:
  assumes L: "successively (lnk N P) (U @ V)"
    and ne: "U \<noteq> []" "V \<noteq> []"
    and d: "distinct U" "distinct V" "x \<notin> set U" "x \<notin> set V"
    and sep: "last U \<notin> set (butlast V)" "hd V \<notin> set (tl U)"
  shows "successively (lnk (N(last U := Some x, x := Some (hd V))) (P(x := Some (last U), hd V := Some x))) (U @ x # V)"
proof -
  let ?N = "N(last U := Some x, x := Some (hd V))"
  let ?P = "P(x := Some (last U), hd V := Some x)"
  from L have LU: "successively (lnk N P) U" and LV: "successively (lnk N P) V"
    using ne by (auto simp: successively_append_iff)
  have "successively (lnk ?N ?P) U"
    by (rule links_frame2[OF LU]) (use d ne sep in \<open>auto dest: in_set_butlastD last_notin_butlast list.set_sel(2)\<close>)
  moreover have "successively (lnk ?N ?P) V"
    by (rule links_frame2[OF LV]) (use d ne sep in \<open>auto dest: in_set_butlastD hd_notin_tl list.set_sel(2)\<close>)
  moreover have "lnk ?N ?P (last U) x" "lnk ?N ?P x (hd V)"
    using d ne by (auto simp: lnk_def)
  ultimately show ?thesis
    using ne by (simp add: successively_append_iff successively_Cons)
qed

lemma linked_simps:
  assumes "f \<in> dom h" "x \<in> dom h" "t \<in> dom h"
  shows "nxt (linked h f x t) = (nxt h)(f := Some x, x := Some t)"
    and "prv (linked h f x t) = (prv h)(x := Some f, t := Some x)"
    and "dom (linked h f x t) = dom h"
  using assms by (simp_all add: linked_def)

lemma is_linked_eff [simp]: "x \<in> dom h \<Longrightarrow> is_linked h (Some x) = Some (prv h x \<noteq> None)"
  by (simp add: is_linked_def)

lemma insert_after_unlinked:
  assumes "nxt h f = Some t" "t \<in> dom h" "x \<in> dom h" "prv h x = None"
  shows "insert_after h (Some f) (Some x) = Some (linked h f x t, Some x)"
proof -
  have f: "f \<in> dom h" using assms(1) by (rule nxt_dom)
  show ?thesis using assms f by (simp add: insert_after_def linked_def)
qed

lemma insert_after_linked:
  assumes "nxt h f = Some t" "t \<in> dom h" "prv h x = Some p" "nxt h x = Some n" "p \<in> dom h" "n \<in> dom h"
  shows "insert_after h (Some f) (Some x) = Some (linked (removed h x) f x t, Some x)"
proof -
  have f: "f \<in> dom h" using assms(1) by (rule nxt_dom)
  have x: "x \<in> dom h" using assms(3) by (rule prv_dom)
  have d: "dom (removed h x) = dom h" using assms by (simp add: removed_simps)
  show ?thesis using assms f x d
    by (simp add: insert_after_def linked_def remove_eff)
qed

lemma wf_nxt_prv: "wf h \<Longrightarrow> nxt h a = Some b \<longleftrightarrow> prv h b = Some a"
  by (simp add: wf_iff wfF_def)

lemma wf_linked_both: "wf h \<Longrightarrow> nxt h a = None \<longleftrightarrow> prv h a = None"
  by (simp add: wf_iff wfF_def)

lemma wf_prv_ex:
  assumes "wf h" "prv h x = Some p"
  shows "\<exists>n. nxt h x = Some n \<and> n \<in> dom h \<and> p \<in> dom h \<and> nxt h p = Some x \<and> prv h n = Some x"
proof -
  from assms have "nxt h x \<noteq> None" by (simp add: wf_linked_both)
  then obtain n where n: "nxt h x = Some n" by auto
  with assms have "prv h n = Some x" by (simp add: wf_nxt_prv)
  moreover from assms have "nxt h p = Some x" by (simp add: wf_nxt_prv)
  ultimately show ?thesis using n nxt_dom[of h p x] prv_dom[of h n x] by simp
qed

lemma wf_removed:
  assumes "wf h" "prv h x = Some p"
  shows "wf (removed h x)"
proof -
  from wf_prv_ex[OF assms] obtain n where n: "nxt h x = Some n" "n \<in> dom h" "p \<in> dom h" by blast
  from assms(1) have "wfF (nxt h) (prv h)" by (simp add: wf_iff)
  from wfF_remove[OF this n(1) assms(2)] show ?thesis
    by (simp add: wf_iff removed_simps[OF assms(2) n(1) n(3) n(2)])
qed

lemma wf_linked:
  assumes "wf h" "x \<in> dom h" "prv h x = None" "nxt h f = Some t"
  shows "wf (linked h f x t)"
proof -
  from assms have nx: "nxt h x = None" by (simp add: wf_linked_both)
  from assms have "prv h t = Some f" by (simp add: wf_nxt_prv)
  then have t: "t \<in> dom h" by (rule prv_dom)
  have f: "f \<in> dom h" using assms(4) by (rule nxt_dom)
  from assms(1) have "wfF (nxt h) (prv h)" by (simp add: wf_iff)
  from wfF_link[OF this nx assms(4)] show ?thesis
    by (simp add: wf_iff linked_simps[OF f assms(2) t])
qed

lemma is_list_junction:
  assumes "is_list h s (A @ B)"
  shows "nxt h (last (s # A)) = Some (hd (B @ [s]))" and "prv h (hd (B @ [s])) = Some (last (s # A))"
proof -
  from assms have "successively (lnk (nxt h) (prv h)) ((s # A) @ (B @ [s]))"
    by (simp add: is_list_def)
  then have "lnk (nxt h) (prv h) (last (s # A)) (hd (B @ [s]))"
    unfolding successively_append_iff by simp
  then show "nxt h (last (s # A)) = Some (hd (B @ [s]))" and "prv h (hd (B @ [s])) = Some (last (s # A))"
    by (simp_all add: lnk_def)
qed

lemma ring_sep:
  assumes d: "distinct (s # A @ B)"
  shows "last (s # A) \<notin> set (butlast (B @ [s]))" and "hd (B @ [s]) \<notin> set (tl (s # A))"
proof -
  have "last (s # A) \<in> set (s # A)" by (rule last_in_set) simp
  moreover have "set (s # A) \<inter> set B = {}" using d by auto
  ultimately show "last (s # A) \<notin> set (butlast (B @ [s]))" by (simp only: butlast_snoc) blast
  have "hd (B @ [s]) \<in> set (B @ [s])" by (rule hd_in_set) simp
  moreover have "set (B @ [s]) \<inter> set A = {}" using d by auto
  ultimately show "hd (B @ [s]) \<notin> set (tl (s # A))" by (simp only: list.sel) blast
qed

lemma is_list_linked:
  assumes l: "is_list h s (A @ B)" and x: "x \<notin> set (s # A @ B)" and xd: "x \<in> dom h"
  shows "is_list (linked h (last (s # A)) x (hd (B @ [s]))) s (A @ x # B)"
proof -
  let ?U = "s # A" and ?V = "B @ [s]"
  from l have d: "distinct (s # A @ B)" by (simp add: is_list_def)
  from l have L: "successively (lnk (nxt h) (prv h)) (?U @ ?V)" by (simp add: is_list_def)
  have fd: "last ?U \<in> dom h" by (rule is_list_dom[OF l]) (use last_in_set[of ?U] in auto)
  have td: "hd ?V \<in> dom h" by (rule is_list_dom[OF l]) (use hd_in_set[of ?V] in auto)
  have "successively (lnk (nxt (linked h (last ?U) x (hd ?V))) (prv (linked h (last ?U) x (hd ?V)))) (?U @ x # ?V)"
    unfolding linked_simps[OF fd xd td]
    by (rule links_insert[OF L _ _ _ _ _ _ ring_sep[OF d]]) (use d x in auto)
  then show ?thesis using d x by (simp add: is_list_def)
qed

text \<open>Removing a node that is not in the list leaves the list as it is.\<close>

lemma is_list_frame:
  assumes l: "is_list h s xs"
    and N: "\<And>u. u \<in> set (s # xs) \<Longrightarrow> nxt h' u = nxt h u"
    and P: "\<And>u. u \<in> set (s # xs) \<Longrightarrow> prv h' u = prv h u"
  shows "is_list h' s xs"
proof -
  from l have L: "successively (lnk (nxt h) (prv h)) (s # xs @ [s])" by (simp add: is_list_def)
  have "successively (lnk (nxt h') (prv h')) (s # xs @ [s])"
    by (rule links_frame2[OF L]) (use N P in \<open>auto simp: butlast_append\<close>)
  with l show ?thesis by (simp add: is_list_def)
qed

lemma is_list_removed_other:
  assumes w: "wf h" and l: "is_list h s xs" and x: "x \<notin> set (s # xs)" and p: "prv h x = Some p"
  shows "is_list (removed h x) s xs"
proof -
  from wf_prv_ex[OF w p] obtain n where n: "nxt h x = Some n" "n \<in> dom h" "p \<in> dom h"
    "nxt h p = Some x" "prv h n = Some x" by blast
  have pn: "p \<notin> set (s # xs)"
  proof
    assume "p \<in> set (s # xs)"
    from is_list_nxt[OF l this] n(4) x show False by auto
  qed
  have nn: "n \<notin> set (s # xs)"
  proof
    assume "n \<in> set (s # xs)"
    from is_list_prv[OF l this] n(5) x show False by auto
  qed
  show ?thesis
    by (rule is_list_frame[OF l]) (use x pn nn in \<open>auto simp: removed_simps[OF p n(1) n(3) n(2)]\<close>)
qed

lemma iterate_links:
  assumes "successively (lnk (nxt h) (prv h)) (a # xs @ [e])" "e \<notin> set xs"
  shows "iterate h (nxt h a) (Some e) = Some xs"
  using assms
proof (induction xs arbitrary: a)
  case Nil
  then have "nxt h a = Some e" by (simp add: lnk_def)
  then show ?case by (simp add: iterate.simps)
next
  case (Cons x xs)
  from Cons.prems have ax: "nxt h a = Some x" and xe: "x \<noteq> e"
    and L: "successively (lnk (nxt h) (prv h)) (x # xs @ [e])" and e: "e \<notin> set xs"
    by (auto simp: lnk_def)
  from L have "nxt h x \<noteq> None" by (cases xs) (auto simp: lnk_def)
  then obtain y where "nxt h x = Some y" by auto
  then have xd: "x \<in> dom h" by (rule nxt_dom)
  from Cons.IH[OF L e] have "iterate h (nxt h x) (Some e) = Some xs" .
  then show ?case using ax xe xd
    by (subst iterate.simps) (simp add: iter_inc_def)
qed

lemma begin_list_eff [simp]: "s \<in> dom h \<Longrightarrow> begin_list h s = Some (nxt h s)"
  by (simp add: begin_list_def)

lemma to_list_is_list:
  assumes "is_list h s xs"
  shows "to_list h s = Some xs"
proof -
  have s: "s \<in> dom h" by (rule is_list_dom[OF assms]) simp
  from assms have "successively (lnk (nxt h) (prv h)) (s # xs @ [s])" "s \<notin> set xs"
    by (simp_all add: is_list_def)
  from iterate_links[OF this] show ?thesis using s
    by (simp add: to_list_def end_list_def)
qed

lemma is_list_begin:
  assumes "is_list h s xs"
  shows "begin_list h s = Some (Some (hd (xs @ [s])))"
proof -
  have s: "s \<in> dom h" by (rule is_list_dom[OF assms]) simp
  from is_list_junction(1)[of h s "[]" xs] assms show ?thesis using s by simp
qed

lemma pop_front_is_list:
  assumes "is_list h s (x # xs)"
  shows "pop_front h s = Some (removed h x)" and "is_list (removed h x) s xs"
proof -
  from is_list_removed[OF assms, of x] obtain p n where
    *: "prv h x = Some p" "nxt h x = Some n" "p \<in> dom h" "n \<in> dom h" "is_list (removed h x) s xs"
    by auto
  show "is_list (removed h x) s xs" by (rule *(5))
  show "pop_front h s = Some (removed h x)"
    using is_list_begin[OF assms] remove_eff[OF *(1-4)]
    by (simp add: pop_front_def erase_def)
qed

lemma untie_all_is_list:
  assumes "is_list h s xs"
  shows "\<exists>h'. untie_all h s = Some h' \<and> is_list h' s [] \<and> dom h' = dom h"
  using assms
proof (induction xs arbitrary: h)
  case Nil
  then have "begin_list h s = Some (Some s)" using is_list_begin[of h s "[]"] by simp
  then show ?case using Nil
    by (subst untie_all.simps) (simp add: empty_list_def end_list_def)
next
  case (Cons x xs)
  from Cons.prems have xs: "x \<noteq> s" by (auto simp: is_list_def)
  from is_list_removed[OF Cons.prems, of x] obtain p n where
    *: "prv h x = Some p" "nxt h x = Some n" "p \<in> dom h" "n \<in> dom h"
    by auto
  have d: "dom (removed h x) = dom h" by (rule removed_simps(3)[OF *])
  from Cons.IH[OF pop_front_is_list(2)[OF Cons.prems]] obtain h' where
    h': "untie_all (removed h x) s = Some h'" "is_list h' s []" "dom h' = dom (removed h x)" by blast
  have "untie_all h s = Some h'"
    using is_list_begin[OF Cons.prems] xs pop_front_is_list(1)[OF Cons.prems] h'(1)
    by (subst untie_all.simps) (simp add: empty_list_def end_list_def)
  with h' d show ?case by simp
qed

lemma hd_dropWhile_pos:
  assumes "pos \<in> set (s # ys)" "s \<notin> set ys"
  shows "hd (dropWhile (\<lambda>y. y \<noteq> pos) ys @ [s]) = pos"
proof (cases "pos \<in> set ys")
  case True
  then have "dropWhile (\<lambda>y. y \<noteq> pos) ys \<noteq> []" by (simp add: dropWhile_eq_Nil_conv)
  then show ?thesis using hd_dropWhile[of "\<lambda>y. y \<noteq> pos" ys] True by (auto simp: hd_append)
next
  case False
  with assms have ps: "pos = s" by simp
  from False have dw: "dropWhile (\<lambda>y. y \<noteq> pos) ys = []" by (auto simp: dropWhile_eq_Nil_conv)
  show ?thesis unfolding dw using ps by simp
qed

lemma is_list_member_linked:
  assumes "is_list h s xs" "u \<in> set (s # xs)"
  shows "prv h u \<noteq> None" "nxt h u \<noteq> None"
  using is_list_prv[OF assms] is_list_nxt[OF assms] by auto

lemma detached_props:
  assumes w: "wf h" and xd: "x \<in> dom h"
  shows "wf (detached h x)" "dom (detached h x) = dom h"
    "prv (detached h x) x = None" "nxt (detached h x) x = None"
proof -
  show "wf (detached h x)" using w wf_removed[OF w] by (auto simp: detached_def)
  show "dom (detached h x) = dom h"
  proof (cases "prv h x")
    case None then show ?thesis by (simp add: detached_def)
  next
    case (Some p)
    from wf_prv_ex[OF w Some] obtain n where "nxt h x = Some n" "n \<in> dom h" "p \<in> dom h" by blast
    with Some show ?thesis by (simp add: detached_def removed_simps)
  qed
  show "prv (detached h x) x = None"
  proof (cases "prv h x")
    case None then show ?thesis by (simp add: detached_def)
  next
    case (Some p)
    from wf_prv_ex[OF w Some] obtain n where "nxt h x = Some n" "n \<in> dom h" "p \<in> dom h" by blast
    with Some show ?thesis by (simp add: detached_def removed_simps)
  qed
  show "nxt (detached h x) x = None"
  proof (cases "prv h x")
    case None then show ?thesis using w by (simp add: detached_def wf_linked_both)
  next
    case (Some p)
    from wf_prv_ex[OF w Some] obtain n where "nxt h x = Some n" "n \<in> dom h" "p \<in> dom h" by blast
    with Some show ?thesis by (simp add: detached_def removed_simps)
  qed
qed

lemma detached_is_list:
  assumes w: "wf h" and l: "is_list h s xs" and xs: "x \<noteq> s"
  shows "is_list (detached h x) s (remove1 x xs)"
proof (cases "prv h x")
  case None
  with is_list_member_linked(1)[OF l, of x] have "x \<notin> set xs" by auto
  then show ?thesis using l None by (simp add: detached_def remove1_idem)
next
  case (Some p)
  show ?thesis
  proof (cases "x \<in> set xs")
    case True
    from is_list_removed[OF l True] Some show ?thesis by (auto simp: detached_def)
  next
    case False
    with xs have "x \<notin> set (s # xs)" by simp
    from is_list_removed_other[OF w l this Some] False Some show ?thesis
      by (simp add: detached_def remove1_idem)
  qed
qed

lemma insert_after_detached:
  assumes w: "wf h" and xd: "x \<in> dom h" and f: "nxt h f = Some t"
  shows "insert_after h (Some f) (Some x) = Some (linked (detached h x) f x t, Some x)"
proof -
  from w f have "prv h t = Some f" by (simp add: wf_nxt_prv)
  then have t: "t \<in> dom h" by (rule prv_dom)
  show ?thesis
  proof (cases "prv h x")
    case None
    from insert_after_unlinked[OF f t xd None] None show ?thesis by (simp add: detached_def)
  next
    case (Some p)
    from wf_prv_ex[OF w Some] obtain n where n: "nxt h x = Some n" "n \<in> dom h" "p \<in> dom h" by blast
    from insert_after_linked[OF f t Some n(1) n(3) n(2)] Some show ?thesis by (simp add: detached_def)
  qed
qed

lemma ins_before_noop:
  assumes l: "is_list h s xs" and pos: "pos \<in> set (s # xs)" and px: "prv h pos = Some x"
    and xs: "x \<noteq> s" and xp: "x \<noteq> pos"
  shows "x \<in> set xs" "ins_before pos x (remove1 x xs) = xs"
proof -
  from l have d: "distinct (s # xs)" by (simp add: is_list_def)
  from is_list_prv[OF l pos] px xs show xin: "x \<in> set xs" by auto
  define A where "A = takeWhile (\<lambda>y. y \<noteq> pos) xs"
  define B where "B = dropWhile (\<lambda>y. y \<noteq> pos) xs"
  have ab: "xs = A @ B" by (simp add: A_def B_def)
  have hdB: "hd (B @ [s]) = pos" unfolding B_def using hd_dropWhile_pos[OF pos] d by simp
  from l have "is_list h s (A @ B)" by (simp add: ab)
  from is_list_junction(2)[OF this] hdB px have la: "last (s # A) = x" by simp
  with xs have ne: "A \<noteq> []" by auto
  with la have "A = butlast A @ [x]" by (metis append_butlast_last_id last_ConsR)
  then obtain A' where A': "A = A' @ [x]" ..
  have xs': "xs = A' @ x # B" using ab A' by simp
  with d have dd: "x \<notin> set A'" "x \<notin> set B" "distinct A'" by auto
  have r: "remove1 x xs = A' @ B" using dd by (simp add: xs' remove1_append)
  have nA: "\<forall>y \<in> set A. y \<noteq> pos" unfolding A_def by (auto dest: set_takeWhileD)
  then have nA': "\<forall>y \<in> set A'. y \<noteq> pos" using A' by simp
  have B0: "B = [] \<or> hd B = pos"
    unfolding B_def using hd_dropWhile[of "\<lambda>y. y \<noteq> pos" xs] by auto
  have tw: "takeWhile (\<lambda>y. y \<noteq> pos) (A' @ B) = A'"
    using nA' B0 by (cases B) auto
  have dw: "dropWhile (\<lambda>y. y \<noteq> pos) (A' @ B) = B"
    using nA' B0 by (cases B) auto
  show "ins_before pos x (remove1 x xs) = xs"
    unfolding ins_before_def r tw dw using xs' by simp
qed

lemma insert_elem_guard:
  assumes "pos = Some x \<or> get_prev h pos = Some (Some x)"
  shows "insert_elem h pos x = Some (h, Some x)"
  using assms by (auto simp: insert_elem_def Let_def)

lemma insert_elem_relink:
  assumes w: "wf h" and xd: "x \<in> dom h" and pf: "prv h pos = Some f" and fx: "f \<noteq> x" and xp: "x \<noteq> pos"
  shows "insert_elem h (Some pos) x = Some (linked (detached h x) f x pos, Some x)"
proof -
  have pd: "pos \<in> dom h" using pf by (rule prv_dom)
  from w pf have nf: "nxt h f = Some pos" by (simp add: wf_nxt_prv)
  from insert_after_detached[OF w xd nf] pd pf fx xp show ?thesis
    by (simp add: insert_elem_def Let_def)
qed

lemma detached_prv_other:
  assumes w: "wf h" and ux: "u \<noteq> x" and pu: "prv h u \<noteq> Some x"
  shows "prv (detached h x) u = prv h u"
proof (cases "prv h x")
  case None then show ?thesis by (simp add: detached_def)
next
  case (Some p)
  from wf_prv_ex[OF w Some] obtain n where n: "nxt h x = Some n" "n \<in> dom h" "p \<in> dom h" "prv h n = Some x" by blast
  from n(4) pu have "u \<noteq> n" by auto
  then show ?thesis using Some ux by (simp add: detached_def removed_simps[OF Some n(1) n(3) n(2)])
qed

lemma insert_elem_lists:
  assumes w: "wf h" and l: "is_list h s xs" and pos: "pos \<in> set (s # xs)"
    and xd: "x \<in> dom h" and xs: "x \<noteq> s"
  shows "\<exists>h'. insert_elem h (Some pos) x = Some (h', Some x) \<and> wf h' \<and> dom h' = dom h \<and>
           is_list h' s (spec_insert pos x xs) \<and>
           (x \<noteq> pos \<longrightarrow> nxt h' x = Some pos \<and> prv h' pos = Some x) \<and>
           (\<forall>t ys. is_list h t ys \<and> set (t # ys) \<inter> set (s # xs) = {} \<and> x \<noteq> t
              \<longrightarrow> is_list h' t (remove1 x ys))"
proof -
  have other_noop: "is_list h t (remove1 x ys)"
    if "x \<in> set (s # xs)" "is_list h t ys" "set (t # ys) \<inter> set (s # xs) = {}" for t ys
  proof -
    from that have "x \<notin> set ys" by auto
    with that(2) show ?thesis by (simp add: remove1_idem)
  qed
  from l have d: "distinct (s # xs)" by (simp add: is_list_def)
  from is_list_prv[OF l pos] obtain f where f: "f \<in> set (s # xs)" "prv h pos = Some f" by blast
  have pd: "pos \<in> dom h" using f(2) by (rule prv_dom)
  consider (same) "x = pos" | (before) "x \<noteq> pos" "f = x" | (move) "x \<noteq> pos" "f \<noteq> x" by blast
  then show ?thesis
  proof cases
    case same
    then have "insert_elem h (Some pos) x = Some (h, Some x)" by (simp add: insert_elem_guard)
    moreover have "spec_insert pos x xs = xs" using same by (simp add: spec_insert_def)
    ultimately show ?thesis using w l other_noop same pos by auto
  next
    case before
    then have "insert_elem h (Some pos) x = Some (h, Some x)"
      using f(2) pd by (simp add: insert_elem_guard)
    moreover have "spec_insert pos x xs = xs" "x \<in> set xs"
      using ins_before_noop[OF l pos _ xs before(1)] f(2) before
      by (simp_all add: spec_insert_def)
    moreover have "nxt h x = Some pos" using w f(2) before by (simp add: wf_nxt_prv)
    ultimately show ?thesis using w l other_noop f(2) before by auto
  next
    case move
    let ?h1 = "detached h x"
    let ?ys = "remove1 x xs"
    define A where "A = takeWhile (\<lambda>y. y \<noteq> pos) ?ys"
    define B where "B = dropWhile (\<lambda>y. y \<noteq> pos) ?ys"
    have ab: "?ys = A @ B" by (simp add: A_def B_def)
    note D = detached_props[OF w xd]
    have l1: "is_list ?h1 s (A @ B)" using detached_is_list[OF w l xs] ab by simp
    have pos1: "pos \<in> set (s # ?ys)" using pos move(1) by auto
    have sn: "s \<notin> set ?ys" using d by (auto dest: notin_set_remove1)
    have hdB: "hd (B @ [s]) = pos" unfolding B_def by (rule hd_dropWhile_pos[OF pos1 sn])
    have "prv ?h1 pos = Some f"
      using detached_prv_other[OF w, of pos x] move f(2) by auto
    with is_list_junction(2)[OF l1] hdB have la: "last (s # A) = f" by simp
    have xn: "x \<notin> set (s # A @ B)" using d xs ab[symmetric] by auto
    have xd1: "x \<in> dom ?h1" using xd D(2) by simp
    let ?h' = "linked ?h1 f x pos"
    have l': "is_list ?h' s (A @ x # B)"
      using is_list_linked[OF l1 xn xd1] la hdB by simp
    have nf1: "nxt ?h1 f = Some pos"
      using is_list_junction(1)[OF l1] la hdB by simp
    have w': "wf ?h'" by (rule wf_linked[OF D(1) xd1 D(3) nf1])
    have fd1: "f \<in> dom ?h1" using nf1 by (rule nxt_dom)
    have pd1: "pos \<in> dom ?h1" using pd D(2) by simp
    note LS = linked_simps[OF fd1 xd1 pd1]
    have dom': "dom ?h' = dom h" using LS(3) D(2) by simp
    have ins: "insert_elem h (Some pos) x = Some (?h', Some x)"
      by (rule insert_elem_relink[OF w xd f(2) move(2) move(1)])
    have spec: "spec_insert pos x xs = A @ x # B"
      using move(1) by (simp add: spec_insert_def ins_before_def A_def B_def)
    have others: "is_list ?h' t (remove1 x ys)"
      if t: "is_list h t ys" "set (t # ys) \<inter> set (s # xs) = {}" "x \<noteq> t" for t ys
    proof -
      from t(1) have dt: "distinct (t # ys)" by (simp add: is_list_def)
      have lt: "is_list ?h1 t (remove1 x ys)" by (rule detached_is_list[OF w t(1) t(3)])
      have xt: "x \<notin> set (t # remove1 x ys)" using dt t(3) by auto
      have sub: "set (t # remove1 x ys) \<subseteq> set (t # ys)" by (auto dest: notin_set_remove1)
      have ft: "f \<notin> set (t # remove1 x ys)" using f(1) t(2) sub by blast
      have pt: "pos \<notin> set (t # remove1 x ys)" using pos t(2) sub by blast
      show ?thesis
        by (rule is_list_frame[OF lt]) (use xt ft pt in \<open>auto simp: LS\<close>)
    qed
    have adj: "nxt ?h' x = Some pos" "prv ?h' pos = Some x" by (simp_all add: LS)
    from ins w' dom' l' spec others adj show ?thesis by auto
  qed
qed

lemma insert_eq_erase_then_insert:
  assumes w: "wf h" and px: "prv h x = Some p" and pf: "prv h pos = Some f" and xp: "x \<noteq> pos"
  shows "insert_elem h (Some pos) x = erase h (Some x) \<bind> (\<lambda>r. insert_elem (fst r) (Some pos) x)"
proof -
  from wf_prv_ex[OF w px] obtain n where n: "nxt h x = Some n" "n \<in> dom h" "p \<in> dom h"
    "nxt h p = Some x" "prv h n = Some x" by blast
  have xd: "x \<in> dom h" using px by (rule prv_dom)
  have pd: "pos \<in> dom h" using pf by (rule prv_dom)
  let ?h1 = "removed h x"
  note R = removed_simps[OF px n(1) n(3) n(2)]
  have er: "erase h (Some x) = Some (?h1, Some n)"
    using remove_eff[OF px n(1) n(3) n(2)] by (simp add: erase_def)
  have dt: "detached h x = ?h1" using px by (simp add: detached_def)
  have w1: "wf ?h1" by (rule wf_removed[OF w px])
  have xd1: "x \<in> dom ?h1" using xd R(3) by simp
  have d1: "detached ?h1 x = ?h1" by (simp add: detached_def R)
  show ?thesis
  proof (cases "f = x")
    case True
    with pf w have "nxt h x = Some pos" by (simp add: wf_nxt_prv)
    with n have np: "n = pos" by simp
    have px': "p \<noteq> x"
    proof
      assume "p = x"
      with n(4) n(1) np xp show False by simp
    qed
    have lhs: "insert_elem h (Some pos) x = Some (h, Some x)"
      using True pf pd by (simp add: insert_elem_guard)
    have p1: "prv ?h1 pos = Some p" using np xp by (simp add: R)
    have rhs: "insert_elem ?h1 (Some pos) x = Some (linked ?h1 p x pos, Some x)"
      using insert_elem_relink[OF w1 xd1 p1 px' xp] d1 by simp
    have pd1: "p \<in> dom ?h1" "pos \<in> dom ?h1" using n(3) pd R(3) by simp_all
    note LS = linked_simps[OF pd1(1) xd1 pd1(2)]
    have "linked ?h1 p x pos = h"
    proof (rule heap_eqI)
      show "dom (linked ?h1 p x pos) = dom h" by (simp add: LS R)
      show "nxt (linked ?h1 p x pos) = nxt h"
        using n(4) n(1) np by (auto simp: LS R fun_eq_iff)
      show "prv (linked ?h1 p x pos) = prv h"
        using px pf True np by (auto simp: LS R fun_eq_iff)
    qed
    with lhs rhs er show ?thesis by simp
  next
    case False
    have lhs: "insert_elem h (Some pos) x = Some (linked ?h1 f x pos, Some x)"
      using insert_elem_relink[OF w xd pf False xp] dt by simp
    have "prv (detached h x) pos = prv h pos"
      by (rule detached_prv_other[OF w]) (use xp pf False in auto)
    then have p1: "prv ?h1 pos = Some f" using dt pf by simp
    have rhs: "insert_elem ?h1 (Some pos) x = Some (linked ?h1 f x pos, Some x)"
      using insert_elem_relink[OF w1 xd1 p1 False xp] d1 by simp
    from lhs rhs er show ?thesis by simp
  qed
qed

lemma spec_insert_end:
  assumes "s \<notin> set xs" "x \<noteq> s"
  shows "spec_insert s x xs = remove1 x xs @ [x]"
proof -
  have "s \<notin> set (remove1 x xs)" using assms(1) by (auto dest: notin_set_remove1)
  then have "takeWhile (\<lambda>y. y \<noteq> s) (remove1 x xs) = remove1 x xs"
    "dropWhile (\<lambda>y. y \<noteq> s) (remove1 x xs) = []"
    by (auto simp: takeWhile_eq_all_conv dropWhile_eq_Nil_conv)
  then show ?thesis using assms(2) by (simp add: spec_insert_def ins_before_def)
qed

lemma spec_insert_begin:
  assumes "s \<notin> set xs" "x \<noteq> s"
  shows "spec_insert (hd (xs @ [s])) x xs = x # remove1 x xs"
proof (cases xs)
  case Nil
  then show ?thesis using assms by (simp add: spec_insert_def ins_before_def)
next
  case (Cons b xs')
  then show ?thesis by (simp add: spec_insert_def ins_before_def)
qed

lemma remove1_last: "distinct xs \<Longrightarrow> xs \<noteq> [] \<Longrightarrow> remove1 (last xs) xs = butlast xs"
  by (cases xs rule: rev_cases) (auto simp: remove1_append)

lemma insert_elem_list:
  assumes "wf h" "is_list h s xs" "pos \<in> set (s # xs)" "x \<in> dom h" "x \<noteq> s"
  shows "\<exists>h'. insert_elem h (Some pos) x = Some (h', Some x) \<and> wf h' \<and> dom h' = dom h \<and>
           is_list h' s (spec_insert pos x xs)"
  using insert_elem_lists[OF assms] by blast

lemma exec_op_correct:
  assumes w: "wf h" and l: "is_list h s xs" and pre: "op_pre h s xs a"
  shows "\<exists>h'. exec_op s h a = Some h' \<and> wf h' \<and> dom h' = dom h \<and> is_list h' s (spec_op a xs)"
proof -
  from l have d: "distinct (s # xs)" by (simp add: is_list_def)
  have sd: "s \<in> dom h" by (rule is_list_dom[OF l]) simp
  have rem: "\<exists>h'. map_option fst (erase h (Some x)) = Some h' \<and> wf h' \<and> dom h' = dom h \<and>
      is_list h' s (remove1 x xs)" if x: "x \<in> set xs" for x
  proof -
    from is_list_removed[OF l x] obtain p n where
      *: "prv h x = Some p" "nxt h x = Some n" "p \<in> dom h" "n \<in> dom h"
      and l': "is_list (removed h x) s (remove1 x xs)" by blast
    from remove_eff[OF *] wf_removed[OF w *(1)] removed_simps(3)[OF *] l'
    show ?thesis by (simp add: erase_def)
  qed
  show ?thesis
  proof (cases a)
    case (Push_front x)
    with pre have x: "x \<in> dom h" "x \<noteq> s" by auto
    have pos: "hd (xs @ [s]) \<in> set (s # xs)" by (cases xs) auto
    from insert_elem_list[OF w l pos x] obtain h' where
      h': "insert_elem h (Some (hd (xs @ [s]))) x = Some (h', Some x)" "wf h'" "dom h' = dom h"
        "is_list h' s (spec_insert (hd (xs @ [s])) x xs)" by blast
    have "spec_insert (hd (xs @ [s])) x xs = x # remove1 x xs"
      using spec_insert_begin[of s xs x] d x by simp
    with h' is_list_begin[OF l] Push_front show ?thesis by (simp add: push_front_def)
  next
    case (Push_back x)
    with pre have x: "x \<in> dom h" "x \<noteq> s" by auto
    have pos: "s \<in> set (s # xs)" by simp
    from insert_elem_list[OF w l pos x] obtain h' where
      h': "insert_elem h (Some s) x = Some (h', Some x)" "wf h'" "dom h' = dom h"
        "is_list h' s (spec_insert s x xs)" by blast
    have "spec_insert s x xs = remove1 x xs @ [x]"
      using spec_insert_end[of s xs x] d x by simp
    with h' Push_back show ?thesis by (simp add: push_back_def end_list_def)
  next
    case (Insert pos x)
    with pre have x: "pos \<in> set (s # xs)" "x \<in> dom h" "x \<noteq> s" by auto
    from insert_elem_list[OF w l x] obtain h' where
      h': "insert_elem h (Some pos) x = Some (h', Some x)" "wf h'" "dom h' = dom h"
        "is_list h' s (spec_insert pos x xs)" by blast
    with Insert show ?thesis by simp
  next
    case (Erase pos)
    with pre rem[of pos] show ?thesis by simp
  next
    case Pop_front
    with pre obtain x xs' where xs: "xs = x # xs'" by (cases xs) auto
    from rem[of x] is_list_begin[OF l] xs Pop_front show ?thesis
      by (simp add: pop_front_def)
  next
    case Pop_back
    with pre have ne: "xs \<noteq> []" by simp
    then have xs: "xs = butlast xs @ [last xs]" by simp
    from l have "is_list h s (xs @ [])" by simp
    from is_list_junction(2)[OF this] ne have ps: "prv h s = Some (last xs)" by simp
    have "remove1 (last xs) xs = butlast xs"
      using d ne by (simp add: remove1_last)
    with rem[of "last xs"] ne ps sd Pop_back show ?thesis
      by (simp add: pop_back_def iter_dec_def end_list_def)
  qed
qed

lemma op_pre_dom: "dom h' = dom h \<Longrightarrow> op_pre h' s xs a = op_pre h s xs a"
proof -
  assume "dom h' = dom h"
  then have "(h' x \<noteq> None) = (h x \<noteq> None)" for x
    using domIff[of x h] domIff[of x h'] by simp
  then show ?thesis by (cases a) simp_all
qed

lemma ops_pre_dom: "dom h' = dom h \<Longrightarrow> ops_pre h' s xs as = ops_pre h s xs as"
proof (induction as arbitrary: xs)
  case Nil
  then show ?case by simp
next
  case (Cons a as)
  from Cons.IH[OF Cons.prems] op_pre_dom[OF Cons.prems, of s xs a] show ?case by simp
qed

lemma exec_ops_correct:
  assumes "wf h" "is_list h s xs" "ops_pre h s xs as"
  shows "\<exists>h'. exec_ops s h as = Some h' \<and> wf h' \<and> dom h' = dom h \<and> is_list h' s (spec_ops as xs)"
  using assms
proof (induction as arbitrary: h xs)
  case Nil
  then show ?case by simp
next
  case (Cons a as)
  from Cons.prems have pre: "op_pre h s xs a" "ops_pre h s (spec_op a xs) as" by simp_all
  from exec_op_correct[OF Cons.prems(1,2) pre(1)] obtain h1 where
    h1: "exec_op s h a = Some h1" "wf h1" "dom h1 = dom h" "is_list h1 s (spec_op a xs)" by blast
  from pre(2) ops_pre_dom[OF h1(3), of s "spec_op a xs" as]
  have "ops_pre h1 s (spec_op a xs) as" by simp
  from Cons.IH[OF h1(2) h1(4) this] h1 show ?case by auto
qed

lemma splice_eff:
  assumes fe: "f \<noteq> e" and pe: "prv h e = Some l" and pf: "prv h f = Some fp" and pq: "prv h q = Some pq"
    and d: "l \<in> dom h" "fp \<in> dom h" "pq \<in> dom h"
  shows "splice h (Some q) other (Some f) (Some e) = Some (spliced h q f e)"
    and "nxt (spliced h q f e) = (nxt h)(fp := Some e, (if q = e then fp else pq) := Some f, l := Some q)"
    and "prv (spliced h q f e) = (prv h)(e := Some fp, f := Some (if q = e then fp else pq), q := Some l)"
    and "dom (spliced h q f e) = dom h"
proof -
  have ed: "e \<in> dom h" using pe by (rule prv_dom)
  have fd: "f \<in> dom h" using pf by (rule prv_dom)
  have qd: "q \<in> dom h" using pq by (rule prv_dom)
  show "splice h (Some q) other (Some f) (Some e) = Some (spliced h q f e)"
    using assms ed fd qd by (simp add: splice_def spliced_def Let_def)
  show "nxt (spliced h q f e) = (nxt h)(fp := Some e, (if q = e then fp else pq) := Some f, l := Some q)"
    using assms ed fd qd by (simp add: spliced_def Let_def)
  show "prv (spliced h q f e) = (prv h)(e := Some fp, f := Some (if q = e then fp else pq), q := Some l)"
    using assms ed fd qd by (simp add: spliced_def Let_def)
  show "dom (spliced h q f e) = dom h"
    using assms ed fd qd by (simp add: spliced_def Let_def)
qed

lemma wr_next_other: "b \<noteq> a \<Longrightarrow> wr_next h a v b = h b"
  by (simp add: wr_next_def)

lemma wr_prev_other: "b \<noteq> a \<Longrightarrow> wr_prev h a v b = h b"
  by (simp add: wr_prev_def)

lemma spliced_other:
  assumes "prv h e = Some l" "prv h f = Some fp" "prv h q = Some pq" "fp \<in> dom h"
    and "a \<notin> {fp, e, (if q = e then fp else pq), f, l, q}"
  shows "spliced h q f e a = h a"
proof -
  have ed: "e \<in> dom h" using assms(1) by (rule prv_dom)
  show ?thesis using assms ed
    by (cases "q = e") (simp_all add: spliced_def Let_def wr_next_other wr_prev_other)
qed

lemma links_splice_frame:
  assumes "successively (lnk N P) Sg"
    and "fp \<notin> set (butlast Sg)" "pp \<notin> set (butlast Sg)" "l \<notin> set (butlast Sg)"
    and "e \<notin> set (tl Sg)" "f \<notin> set (tl Sg)" "q \<notin> set (tl Sg)"
  shows "successively (lnk (N(fp := Some e, pp := Some f, l := Some q)) (P(e := Some fp, f := Some pp, q := Some l))) Sg"
  by (rule links_frame2[OF assms(1)]) (use assms(2-) in auto)

lemma splice_junctions:
  assumes "fp \<noteq> pp" "fp \<noteq> l" "pp \<noteq> l" "e \<noteq> f" "e \<noteq> q" "f \<noteq> q"
  shows "lnk (N(fp := Some e, pp := Some f, l := Some q)) (P(e := Some fp, f := Some pp, q := Some l)) fp e"
    and "lnk (N(fp := Some e, pp := Some f, l := Some q)) (P(e := Some fp, f := Some pp, q := Some l)) pp f"
    and "lnk (N(fp := Some e, pp := Some f, l := Some q)) (P(e := Some fp, f := Some pp, q := Some l)) l q"
  using assms by (simp_all add: lnk_def)

lemma set_tl_sub: "set (tl xs) \<subseteq> set xs"
  by (cases xs) auto

lemma set_butlast_sub: "set (butlast xs) \<subseteq> set xs"
  by (auto dest: in_set_butlastD)

lemma notin_subD: "x \<notin> T \<Longrightarrow> S \<subseteq> T \<Longrightarrow> x \<notin> S"
  by blast

lemma lnk_dom:
  assumes "lnk (nxt h) (prv h) a b"
  shows "a \<in> dom h" "b \<in> dom h"
proof -
  from assms have *: "nxt h a = Some b" "prv h b = Some a" by (simp_all add: lnk_def)
  show "a \<in> dom h" using *(1) by (rule nxt_dom)
  show "b \<in> dom h" using *(2) by (rule prv_dom)
qed

lemma splice_other_list:
  assumes lt: "is_list h t (A @ R @ B)" and ls: "is_list h s (X @ Y)" and R: "R \<noteq> []"
    and dj: "set (t # A @ R @ B) \<inter> set (s # X @ Y) = {}"
  shows "splice h (Some (hd (Y @ [s]))) other (Some (hd R)) (Some (hd (B @ [t])))
           = Some (spliced h (hd (Y @ [s])) (hd R) (hd (B @ [t])))"
    and "is_list (spliced h (hd (Y @ [s])) (hd R) (hd (B @ [t]))) t (A @ B)"
    and "is_list (spliced h (hd (Y @ [s])) (hd R) (hd (B @ [t]))) s (X @ R @ Y)"
    and "dom (spliced h (hd (Y @ [s])) (hd R) (hd (B @ [t]))) = dom h"
    and "\<forall>a. a \<notin> {last (t # A), hd (B @ [t]), last (s # X), hd R, last R, hd (Y @ [s])}
           \<longrightarrow> spliced h (hd (Y @ [s])) (hd R) (hd (B @ [t])) a = h a"
proof -
  define U where "U = t # A"
  define V where "V = B @ [t]"
  define X' where "X' = s # X"
  define Y' where "Y' = Y @ [s]"
  define fp where "fp = last U"
  define l where "l = last R"
  define pp where "pp = last X'"
  define q where "q = hd Y'"
  define f where "f = hd R"
  define e where "e = hd V"
  have ne: "U \<noteq> []" "V \<noteq> []" "X' \<noteq> []" "Y' \<noteq> []"
    by (simp_all add: U_def V_def X'_def Y'_def)
  from lt have dt: "distinct (t # A @ R @ B)" by (simp add: is_list_def)
  from ls have ds: "distinct (s # X @ Y)" by (simp add: is_list_def)
  have dU: "distinct U" "distinct V" "distinct R" "distinct X'" "distinct Y'"
    using dt ds by (auto simp: U_def V_def X'_def Y'_def)
  have mem: "fp \<in> set U" "l \<in> set R" "pp \<in> set X'" "q \<in> set Y'" "f \<in> set R" "e \<in> set V"
    using ne R by (simp_all add: fp_def l_def pp_def q_def f_def e_def)
  have sub: "set (butlast U) \<subseteq> set U" "set (tl U) \<subseteq> set A" "set (butlast V) \<subseteq> set B" "set (tl V) \<subseteq> set V"
    "set (butlast X') \<subseteq> set X'" "set (tl X') \<subseteq> set X" "set (butlast Y') \<subseteq> set Y" "set (tl Y') \<subseteq> set Y'"
    "set (butlast R) \<subseteq> set R" "set (tl R) \<subseteq> set R"
    "set (butlast Y') \<subseteq> set Y'" "set (butlast V) \<subseteq> set V" "set (tl U) \<subseteq> set U" "set (tl X') \<subseteq> set X'"
    using set_tl_sub[of V] set_tl_sub[of Y'] set_tl_sub[of R] set_tl_sub[of U] set_tl_sub[of X']
      set_butlast_sub[of U] set_butlast_sub[of X'] set_butlast_sub[of R] set_butlast_sub[of V] set_butlast_sub[of Y']
    by (simp_all add: U_def V_def X'_def Y'_def)
  have ends: "fp \<notin> set (butlast U)" "l \<notin> set (butlast R)" "pp \<notin> set (butlast X')"
    "q \<notin> set (tl Y')" "f \<notin> set (tl R)" "e \<notin> set (tl V)"
    using dU ne R by (simp_all add: fp_def l_def pp_def q_def f_def e_def last_notin_butlast hd_notin_tl)
  have iU: "\<And>x. x \<in> set U \<Longrightarrow> x \<notin> set R \<and> x \<notin> set B \<and> x \<notin> set X' \<and> x \<notin> set Y'"
    using dt dj by (auto simp: U_def X'_def Y'_def)
  have iV: "\<And>x. x \<in> set V \<Longrightarrow> x \<notin> set R \<and> x \<notin> set A \<and> x \<notin> set X' \<and> x \<notin> set Y'"
    using dt dj by (auto simp: V_def X'_def Y'_def)
  have iR: "\<And>x. x \<in> set R \<Longrightarrow> x \<notin> set U \<and> x \<notin> set V \<and> x \<notin> set X' \<and> x \<notin> set Y'"
    using dt dj by (auto simp: U_def V_def X'_def Y'_def)
  have iX: "\<And>x. x \<in> set X' \<Longrightarrow> x \<notin> set U \<and> x \<notin> set V \<and> x \<notin> set R \<and> x \<notin> set Y"
    using ds dj by (auto simp: U_def V_def X'_def Y'_def)
  have iY: "\<And>x. x \<in> set Y' \<Longrightarrow> x \<notin> set U \<and> x \<notin> set V \<and> x \<notin> set R \<and> x \<notin> set X"
    using ds dj by (auto simp: U_def V_def X'_def Y'_def)
  from iU[OF mem(1)] have fpN0: "fp \<notin> set R" "fp \<notin> set B" "fp \<notin> set X'" "fp \<notin> set Y'" by simp_all
  have fpN: "fp \<notin> set (butlast V)" "fp \<notin> set (butlast R)" "fp \<notin> set (butlast X')" "fp \<notin> set (butlast Y')"
    by (rule notin_subD[OF fpN0(2) sub(3)], rule notin_subD[OF fpN0(1) sub(9)],
        rule notin_subD[OF fpN0(3) sub(5)], rule notin_subD[OF fpN0(4) sub(11)])
  from iR[OF mem(2)] have lN0: "l \<notin> set U" "l \<notin> set V" "l \<notin> set X'" "l \<notin> set Y'" by simp_all
  have lN: "l \<notin> set (butlast U)" "l \<notin> set (butlast V)" "l \<notin> set (butlast X')" "l \<notin> set (butlast Y')"
    by (rule notin_subD[OF lN0(1) sub(1)], rule notin_subD[OF lN0(2) sub(12)],
        rule notin_subD[OF lN0(3) sub(5)], rule notin_subD[OF lN0(4) sub(11)])
  from iX[OF mem(3)] have ppN0: "pp \<notin> set U" "pp \<notin> set V" "pp \<notin> set R" "pp \<notin> set Y" by simp_all
  have ppN: "pp \<notin> set (butlast U)" "pp \<notin> set (butlast V)" "pp \<notin> set (butlast R)" "pp \<notin> set (butlast Y')"
    by (rule notin_subD[OF ppN0(1) sub(1)], rule notin_subD[OF ppN0(2) sub(12)],
        rule notin_subD[OF ppN0(3) sub(9)], rule notin_subD[OF ppN0(4) sub(7)])
  from iY[OF mem(4)] have qN0: "q \<notin> set U" "q \<notin> set V" "q \<notin> set R" "q \<notin> set X" by simp_all
  have qN: "q \<notin> set (tl U)" "q \<notin> set (tl V)" "q \<notin> set (tl R)" "q \<notin> set (tl X')"
    by (rule notin_subD[OF qN0(1) sub(13)], rule notin_subD[OF qN0(2) sub(4)],
        rule notin_subD[OF qN0(3) sub(10)], rule notin_subD[OF qN0(4) sub(6)])
  from iR[OF mem(5)] have fN0: "f \<notin> set U" "f \<notin> set V" "f \<notin> set X'" "f \<notin> set Y'" by simp_all
  have fN: "f \<notin> set (tl U)" "f \<notin> set (tl V)" "f \<notin> set (tl X')" "f \<notin> set (tl Y')"
    by (rule notin_subD[OF fN0(1) sub(13)], rule notin_subD[OF fN0(2) sub(4)],
        rule notin_subD[OF fN0(3) sub(14)], rule notin_subD[OF fN0(4) sub(8)])
  from iV[OF mem(6)] have eN0: "e \<notin> set R" "e \<notin> set A" "e \<notin> set X'" "e \<notin> set Y'" by simp_all
  have eN: "e \<notin> set (tl U)" "e \<notin> set (tl R)" "e \<notin> set (tl X')" "e \<notin> set (tl Y')"
    by (rule notin_subD[OF eN0(2) sub(2)], rule notin_subD[OF eN0(1) sub(10)],
        rule notin_subD[OF eN0(3) sub(14)], rule notin_subD[OF eN0(4) sub(8)])
  note fr = ends fpN lN ppN qN fN eN
  let ?L = "lnk (nxt h) (prv h)"
  from lt have W1: "successively ?L (U @ R @ V)" by (simp add: is_list_def U_def V_def)
  from ls have W2: "successively ?L (X' @ Y')" by (simp add: is_list_def X'_def Y'_def)
  from W1 have LU: "successively ?L U" and LR: "successively ?L R" and LV: "successively ?L V"
    and J1: "?L fp f" and J2: "?L l e"
    using ne R by (auto simp: successively_append_iff fp_def f_def l_def e_def)
  from W2 have LX: "successively ?L X'" and LY: "successively ?L Y'" and J3: "?L pp q"
    using ne by (auto simp: successively_append_iff pp_def q_def)
  have pe: "prv h e = Some l" and pf: "prv h f = Some fp" and pq: "prv h q = Some pp"
    using J1 J2 J3 by (simp_all add: lnk_def)
  have dm: "l \<in> dom h" "fp \<in> dom h" "pp \<in> dom h"
    by (rule lnk_dom[OF J2] lnk_dom[OF J1] lnk_dom[OF J3])+
  have fe: "f \<noteq> e" using iR[OF mem(5)] mem(6) by blast
  have qe: "q \<noteq> e" using iY[OF mem(4)] mem(6) by blast
  note E = splice_eff[OF fe pe pf pq dm]
  let ?h' = "spliced h q f e"
  let ?L' = "lnk (nxt ?h') (prv ?h')"
  have N: "nxt ?h' = (nxt h)(fp := Some e, pp := Some f, l := Some q)"
    and P: "prv ?h' = (prv h)(e := Some fp, f := Some pp, q := Some l)"
    using E(2,3) qe by simp_all
  have neq: "fp \<noteq> pp" "fp \<noteq> l" "pp \<noteq> l" "e \<noteq> f" "e \<noteq> q" "f \<noteq> q"
    using iU[OF mem(1)] iR[OF mem(2)] iR[OF mem(5)] iY[OF mem(4)] mem by blast+
  note J = splice_junctions[OF neq, of "nxt h" "prv h", folded N P]
  have FU: "successively ?L' U" unfolding N P
    by (rule links_splice_frame[OF LU]) (rule fr)+
  have FV: "successively ?L' V" unfolding N P
    by (rule links_splice_frame[OF LV]) (rule fr)+
  have FR: "successively ?L' R" unfolding N P
    by (rule links_splice_frame[OF LR]) (rule fr)+
  have FX: "successively ?L' X'" unfolding N P
    by (rule links_splice_frame[OF LX]) (rule fr)+
  have FY: "successively ?L' Y'" unfolding N P
    by (rule links_splice_frame[OF LY]) (rule fr)+
  have "successively ?L' (U @ V)"
    using FU FV J(1) ne by (simp add: successively_append_iff fp_def e_def)
  moreover have "distinct (t # A @ B)" using dt by auto
  ultimately have r1: "is_list ?h' t (A @ B)" by (simp add: is_list_def U_def V_def)
  have "successively ?L' (X' @ R @ Y')"
    using FX FR FY J(2,3) ne R by (simp add: successively_append_iff pp_def f_def l_def q_def)
  moreover have "distinct (s # X @ R @ Y)" using ds dt dj by auto
  ultimately have r2: "is_list ?h' s (X @ R @ Y)" by (simp add: is_list_def X'_def Y'_def)
  have ot: "\<forall>a. a \<notin> {fp, e, pp, f, l, q} \<longrightarrow> ?h' a = h a"
    using spliced_other[OF pe pf pq dm(2)] qe by simp
  show "splice h (Some (hd (Y @ [s]))) other (Some (hd R)) (Some (hd (B @ [t])))
           = Some (spliced h (hd (Y @ [s])) (hd R) (hd (B @ [t])))"
    using E(1)[of other] by (simp add: q_def f_def e_def Y'_def V_def)
  show "is_list (spliced h (hd (Y @ [s])) (hd R) (hd (B @ [t]))) t (A @ B)"
    using r1 by (simp add: q_def f_def e_def Y'_def V_def)
  show "is_list (spliced h (hd (Y @ [s])) (hd R) (hd (B @ [t]))) s (X @ R @ Y)"
    using r2 by (simp add: q_def f_def e_def Y'_def V_def)
  show "dom (spliced h (hd (Y @ [s])) (hd R) (hd (B @ [t]))) = dom h"
    using E(4) by (simp add: q_def f_def e_def Y'_def V_def)
  show "\<forall>a. a \<notin> {last (t # A), hd (B @ [t]), last (s # X), hd R, last R, hd (Y @ [s])}
           \<longrightarrow> spliced h (hd (Y @ [s])) (hd R) (hd (B @ [t])) a = h a"
    using ot unfolding q_def f_def e_def Y'_def V_def fp_def pp_def l_def U_def X'_def .
qed

lemma swap_is_list:
  assumes l: "is_list h s (A @ M1 @ M2 @ Z)" and ne1: "M1 \<noteq> []" and ne2: "M2 \<noteq> []"
    and Nn: "\<And>u. u \<noteq> last (s # A) \<Longrightarrow> u \<noteq> last M1 \<Longrightarrow> u \<noteq> last M2 \<Longrightarrow> nxt h' u = nxt h u"
    and N1: "nxt h' (last (s # A)) = Some (hd M2)"
    and N2: "nxt h' (last M2) = Some (hd M1)"
    and N3: "nxt h' (last M1) = Some (hd (Z @ [s]))"
    and Pn: "\<And>v. v \<noteq> hd M1 \<Longrightarrow> v \<noteq> hd M2 \<Longrightarrow> v \<noteq> hd (Z @ [s]) \<Longrightarrow> prv h' v = prv h v"
    and P1: "prv h' (hd M2) = Some (last (s # A))"
    and P2: "prv h' (hd M1) = Some (last M2)"
    and P3: "prv h' (hd (Z @ [s])) = Some (last M1)"
  shows "is_list h' s (A @ M2 @ M1 @ Z)"
proof -
  define U where "U = s # A"
  define V where "V = Z @ [s]"
  define a1 where "a1 = last U"
  define a2 where "a2 = last M2"
  define a3 where "a3 = last M1"
  define b1 where "b1 = hd M2"
  define b2 where "b2 = hd M1"
  define b3 where "b3 = hd V"
  have ne: "U \<noteq> []" "V \<noteq> []" by (simp_all add: U_def V_def)
  from l have d: "distinct (s # A @ M1 @ M2 @ Z)" by (simp add: is_list_def)
  have dS: "distinct U" "distinct V" "distinct M1" "distinct M2"
    using d by (auto simp: U_def V_def)
  have mem: "a1 \<in> set U" "a2 \<in> set M2" "a3 \<in> set M1" "b1 \<in> set M2" "b2 \<in> set M1" "b3 \<in> set V"
    using ne ne1 ne2 by (simp_all add: a1_def a2_def a3_def b1_def b2_def b3_def)
  have iU: "\<And>x. x \<in> set U \<Longrightarrow> x \<notin> set M1 \<and> x \<notin> set M2 \<and> x \<notin> set (butlast V)"
    using d by (auto simp: U_def V_def)
  have iV: "\<And>x. x \<in> set V \<Longrightarrow> x \<notin> set M1 \<and> x \<notin> set M2 \<and> x \<notin> set (tl U)"
    using d by (auto simp: U_def V_def)
  have i1: "\<And>x. x \<in> set M1 \<Longrightarrow> x \<notin> set U \<and> x \<notin> set M2 \<and> x \<notin> set V"
    using d by (auto simp: U_def V_def)
  have i2: "\<And>x. x \<in> set M2 \<Longrightarrow> x \<notin> set U \<and> x \<notin> set M1 \<and> x \<notin> set V"
    using d by (auto simp: U_def V_def)
  have sub: "set (butlast U) \<subseteq> set U" "set (butlast M1) \<subseteq> set M1" "set (butlast M2) \<subseteq> set M2"
    "set (tl V) \<subseteq> set V" "set (tl M1) \<subseteq> set M1" "set (tl M2) \<subseteq> set M2"
    by (rule set_butlast_sub set_tl_sub)+
  have ends: "a1 \<notin> set (butlast U)" "a2 \<notin> set (butlast M2)" "a3 \<notin> set (butlast M1)"
    "b1 \<notin> set (tl M2)" "b2 \<notin> set (tl M1)" "b3 \<notin> set (tl V)"
    using dS ne ne1 ne2
    by (simp_all add: a1_def a2_def a3_def b1_def b2_def b3_def last_notin_butlast hd_notin_tl)
  from iU[OF mem(1)] have a1N0: "a1 \<notin> set M1" "a1 \<notin> set M2" "a1 \<notin> set (butlast V)" by simp_all
  from i2[OF mem(2)] have a2N0: "a2 \<notin> set U" "a2 \<notin> set M1" "a2 \<notin> set V" by simp_all
  from i1[OF mem(3)] have a3N0: "a3 \<notin> set U" "a3 \<notin> set M2" "a3 \<notin> set V" by simp_all
  from i2[OF mem(4)] have b1N0: "b1 \<notin> set U" "b1 \<notin> set M1" "b1 \<notin> set V" by simp_all
  from i1[OF mem(5)] have b2N0: "b2 \<notin> set U" "b2 \<notin> set M2" "b2 \<notin> set V" by simp_all
  from iV[OF mem(6)] have b3N0: "b3 \<notin> set M1" "b3 \<notin> set M2" "b3 \<notin> set (tl U)" by simp_all
  have bV: "set (butlast V) \<subseteq> set V" and tU: "set (tl U) \<subseteq> set U"
    by (rule set_butlast_sub set_tl_sub)+
  have srcU: "a1 \<notin> set (butlast U)" "a2 \<notin> set (butlast U)" "a3 \<notin> set (butlast U)"
    by (rule ends(1), rule notin_subD[OF a2N0(1) sub(1)], rule notin_subD[OF a3N0(1) sub(1)])
  have src1: "a1 \<notin> set (butlast M1)" "a2 \<notin> set (butlast M1)" "a3 \<notin> set (butlast M1)"
    by (rule notin_subD[OF a1N0(1) sub(2)], rule notin_subD[OF a2N0(2) sub(2)], rule ends(3))
  have src2: "a1 \<notin> set (butlast M2)" "a2 \<notin> set (butlast M2)" "a3 \<notin> set (butlast M2)"
    by (rule notin_subD[OF a1N0(2) sub(3)], rule ends(2), rule notin_subD[OF a3N0(2) sub(3)])
  have srcV: "a1 \<notin> set (butlast V)" "a2 \<notin> set (butlast V)" "a3 \<notin> set (butlast V)"
    by (rule a1N0(3), rule notin_subD[OF a2N0(3) bV], rule notin_subD[OF a3N0(3) bV])
  have tgtU: "b1 \<notin> set (tl U)" "b2 \<notin> set (tl U)" "b3 \<notin> set (tl U)"
    by (rule notin_subD[OF b1N0(1) tU], rule notin_subD[OF b2N0(1) tU], rule b3N0(3))
  have tgt1: "b1 \<notin> set (tl M1)" "b2 \<notin> set (tl M1)" "b3 \<notin> set (tl M1)"
    by (rule notin_subD[OF b1N0(2) sub(5)], rule ends(5), rule notin_subD[OF b3N0(1) sub(5)])
  have tgt2: "b1 \<notin> set (tl M2)" "b2 \<notin> set (tl M2)" "b3 \<notin> set (tl M2)"
    by (rule ends(4), rule notin_subD[OF b2N0(2) sub(6)], rule notin_subD[OF b3N0(2) sub(6)])
  have tgtV: "b1 \<notin> set (tl V)" "b2 \<notin> set (tl V)" "b3 \<notin> set (tl V)"
    by (rule notin_subD[OF b1N0(3) sub(4)], rule notin_subD[OF b2N0(3) sub(4)], rule ends(6))
  have Nf: "nxt h' u = nxt h u" if "a1 \<noteq> u" "a2 \<noteq> u" "a3 \<noteq> u" for u
    using Nn[of u] that by (auto simp: a1_def a2_def a3_def U_def)
  have Pf: "prv h' v = prv h v" if "b1 \<noteq> v" "b2 \<noteq> v" "b3 \<noteq> v" for v
    using Pn[of v] that by (auto simp: b1_def b2_def b3_def V_def)
  let ?L = "lnk (nxt h) (prv h)" and ?L' = "lnk (nxt h') (prv h')"
  from l have W: "successively ?L (U @ M1 @ M2 @ V)" by (simp add: is_list_def U_def V_def)
  then have LU: "successively ?L U" and L1: "successively ?L M1" and L2: "successively ?L M2"
    and LV: "successively ?L V"
    using ne ne1 ne2 by (auto simp: successively_append_iff)
  have frame: "successively ?L' Sg"
    if "successively ?L Sg" "a1 \<notin> set (butlast Sg)" "a2 \<notin> set (butlast Sg)" "a3 \<notin> set (butlast Sg)"
      "b1 \<notin> set (tl Sg)" "b2 \<notin> set (tl Sg)" "b3 \<notin> set (tl Sg)" for Sg
  proof (rule links_frame2[OF that(1)])
    fix u assume "u \<in> set (butlast Sg)"
    with that(2-4) show "nxt h' u = nxt h u" by (intro Nf) auto
  next
    fix v assume "v \<in> set (tl Sg)"
    with that(5-7) show "prv h' v = prv h v" by (intro Pf) auto
  qed
  have FU: "successively ?L' U" by (rule frame[OF LU srcU tgtU])
  have F1: "successively ?L' M1" by (rule frame[OF L1 src1 tgt1])
  have F2: "successively ?L' M2" by (rule frame[OF L2 src2 tgt2])
  have FV: "successively ?L' V" by (rule frame[OF LV srcV tgtV])
  have J: "?L' (last U) (hd M2)" "?L' (last M2) (hd M1)" "?L' (last M1) (hd V)"
    using N1 N2 N3 P1 P2 P3 by (simp_all add: lnk_def U_def V_def)
  have "successively ?L' (U @ M2 @ M1 @ V)"
    using FU F1 F2 FV J ne ne1 ne2 by (simp add: successively_append_iff)
  moreover have "distinct (s # A @ M2 @ M1 @ Z)" using d by auto
  ultimately show ?thesis by (simp add: is_list_def U_def V_def)
qed

lemma hd_snoc_in: "hd (B @ [s]) \<in> set (B @ [s])"
  by (rule hd_in_set) simp

lemma last_cons_in: "last (s # X) \<in> set (s # X)"
  by (rule last_in_set) simp

lemma splice_before_range:
  assumes l: "is_list h s (X @ Y @ R @ B)" and Y: "Y \<noteq> []" and R: "R \<noteq> []"
  shows "splice h (Some (hd Y)) other (Some (hd R)) (Some (hd (B @ [s])))
           = Some (spliced h (hd Y) (hd R) (hd (B @ [s])))"
    and "is_list (spliced h (hd Y) (hd R) (hd (B @ [s]))) s (X @ R @ Y @ B)"
    and "dom (spliced h (hd Y) (hd R) (hd (B @ [s]))) = dom h"
    and "\<forall>a. a \<notin> {last Y, hd (B @ [s]), last (s # X), hd R, last R, hd Y}
           \<longrightarrow> spliced h (hd Y) (hd R) (hd (B @ [s])) a = h a"
proof -
  define q where "q = hd Y"
  define f where "f = hd R"
  define e where "e = hd (B @ [s])"
  define fp where "fp = last Y"
  define pq where "pq = last (s # X)"
  define lr where "lr = last R"
  from l have d: "distinct (s # X @ Y @ R @ B)" by (simp add: is_list_def)
  from l have "is_list h s ((X @ Y @ R) @ B)" by simp
  from is_list_junction[OF this] R have Je: "nxt h lr = Some e" "prv h e = Some lr"
    by (simp_all add: e_def lr_def)
  from l have "is_list h s ((X @ Y) @ (R @ B))" by simp
  from is_list_junction[OF this] R Y have Jf: "nxt h fp = Some f" "prv h f = Some fp"
    by (simp_all add: f_def fp_def)
  from is_list_junction[OF l] Y have Jq: "nxt h pq = Some q" "prv h q = Some pq"
    by (simp_all add: q_def pq_def)
  have mem: "q \<in> set Y" "f \<in> set R" "e \<in> set (B @ [s])" "fp \<in> set Y" "pq \<in> set (s # X)" "lr \<in> set R"
    unfolding q_def f_def e_def fp_def pq_def lr_def
    by (rule hd_in_set[OF Y] hd_in_set[OF R] last_in_set[OF Y] last_in_set[OF R] hd_snoc_in last_cons_in)+
  have iY: "\<And>x. x \<in> set Y \<Longrightarrow> x \<notin> set R \<and> x \<notin> set (B @ [s]) \<and> x \<notin> set (s # X)"
    using d by auto
  have iR: "\<And>x. x \<in> set R \<Longrightarrow> x \<notin> set Y \<and> x \<notin> set (B @ [s]) \<and> x \<notin> set (s # X)"
    using d by auto
  have neq: "f \<noteq> e" "q \<noteq> e" "f \<noteq> q" "fp \<noteq> pq" "fp \<noteq> lr" "pq \<noteq> lr"
    using iY[OF mem(1)] iY[OF mem(4)] iR[OF mem(2)] iR[OF mem(6)] mem by blast+
  have dm: "lr \<in> dom h" "fp \<in> dom h" "pq \<in> dom h"
    by (rule nxt_dom[OF Je(1)] nxt_dom[OF Jf(1)] nxt_dom[OF Jq(1)])+
  note E = splice_eff[OF neq(1) Je(2) Jf(2) Jq(2) dm]
  let ?h' = "spliced h q f e"
  have N: "nxt ?h' = (nxt h)(fp := Some e, pq := Some f, lr := Some q)"
    and P: "prv ?h' = (prv h)(e := Some fp, f := Some pq, q := Some lr)"
    using E(2,3) neq(2) by simp_all
  have "is_list ?h' s (X @ R @ Y @ B)"
    by (rule swap_is_list[OF l Y R, of ?h', folded q_def f_def e_def fp_def pq_def lr_def])
       (use neq in \<open>simp_all add: N P\<close>)
  moreover have "\<forall>a. a \<notin> {fp, e, pq, f, lr, q} \<longrightarrow> ?h' a = h a"
    using spliced_other[OF Je(2) Jf(2) Jq(2) dm(2)] neq(2) by simp
  ultimately show "splice h (Some (hd Y)) other (Some (hd R)) (Some (hd (B @ [s])))
           = Some (spliced h (hd Y) (hd R) (hd (B @ [s])))"
    and "is_list (spliced h (hd Y) (hd R) (hd (B @ [s]))) s (X @ R @ Y @ B)"
    and "dom (spliced h (hd Y) (hd R) (hd (B @ [s]))) = dom h"
    and "\<forall>a. a \<notin> {last Y, hd (B @ [s]), last (s # X), hd R, last R, hd Y}
           \<longrightarrow> spliced h (hd Y) (hd R) (hd (B @ [s])) a = h a"
    using E(1)[of other] E(4) unfolding q_def f_def e_def fp_def pq_def lr_def by blast+
qed

lemma splice_after_range:
  assumes l: "is_list h s (A @ R @ Y @ Z)" and R: "R \<noteq> []" and Y: "Y \<noteq> []"
  shows "splice h (Some (hd (Z @ [s]))) other (Some (hd R)) (Some (hd Y))
           = Some (spliced h (hd (Z @ [s])) (hd R) (hd Y))"
    and "is_list (spliced h (hd (Z @ [s])) (hd R) (hd Y)) s (A @ Y @ R @ Z)"
    and "dom (spliced h (hd (Z @ [s])) (hd R) (hd Y)) = dom h"
    and "\<forall>a. a \<notin> {last (s # A), hd Y, last Y, hd R, last R, hd (Z @ [s])}
           \<longrightarrow> spliced h (hd (Z @ [s])) (hd R) (hd Y) a = h a"
proof -
  define q where "q = hd (Z @ [s])"
  define f where "f = hd R"
  define e where "e = hd Y"
  define fp where "fp = last (s # A)"
  define pq where "pq = last Y"
  define lr where "lr = last R"
  from l have d: "distinct (s # A @ R @ Y @ Z)" by (simp add: is_list_def)
  from l have "is_list h s ((A @ R) @ (Y @ Z))" by simp
  from is_list_junction[OF this] R Y have Je: "nxt h lr = Some e" "prv h e = Some lr"
    by (simp_all add: e_def lr_def)
  from is_list_junction[OF l] R have Jf: "nxt h fp = Some f" "prv h f = Some fp"
    by (simp_all add: f_def fp_def)
  from l have "is_list h s ((A @ R @ Y) @ Z)" by simp
  from is_list_junction[OF this] Y have Jq: "nxt h pq = Some q" "prv h q = Some pq"
    by (simp_all add: q_def pq_def)
  have mem: "q \<in> set (Z @ [s])" "f \<in> set R" "e \<in> set Y" "fp \<in> set (s # A)" "pq \<in> set Y" "lr \<in> set R"
    unfolding q_def f_def e_def fp_def pq_def lr_def
    by (rule hd_in_set[OF Y] hd_in_set[OF R] last_in_set[OF Y] last_in_set[OF R] hd_snoc_in last_cons_in)+
  have iY: "\<And>x. x \<in> set Y \<Longrightarrow> x \<notin> set R \<and> x \<notin> set (Z @ [s]) \<and> x \<notin> set (s # A)"
    using d by auto
  have iR: "\<And>x. x \<in> set R \<Longrightarrow> x \<notin> set Y \<and> x \<notin> set (Z @ [s]) \<and> x \<notin> set (s # A)"
    using d by auto
  have neq: "f \<noteq> e" "q \<noteq> e" "f \<noteq> q" "fp \<noteq> pq" "fp \<noteq> lr" "pq \<noteq> lr"
    using iY[OF mem(3)] iY[OF mem(5)] iR[OF mem(2)] iR[OF mem(6)] mem by blast+
  have dm: "lr \<in> dom h" "fp \<in> dom h" "pq \<in> dom h"
    by (rule nxt_dom[OF Je(1)] nxt_dom[OF Jf(1)] nxt_dom[OF Jq(1)])+
  note E = splice_eff[OF neq(1) Je(2) Jf(2) Jq(2) dm]
  let ?h' = "spliced h q f e"
  have N: "nxt ?h' = (nxt h)(fp := Some e, pq := Some f, lr := Some q)"
    and P: "prv ?h' = (prv h)(e := Some fp, f := Some pq, q := Some lr)"
    using E(2,3) neq(2) by simp_all
  have "is_list ?h' s (A @ Y @ R @ Z)"
    by (rule swap_is_list[OF l R Y, of ?h', folded q_def f_def e_def fp_def pq_def lr_def])
       (use neq in \<open>simp_all add: N P\<close>)
  moreover have "\<forall>a. a \<notin> {fp, e, pq, f, lr, q} \<longrightarrow> ?h' a = h a"
    using spliced_other[OF Je(2) Jf(2) Jq(2) dm(2)] neq(2) by simp
  ultimately show "splice h (Some (hd (Z @ [s]))) other (Some (hd R)) (Some (hd Y))
           = Some (spliced h (hd (Z @ [s])) (hd R) (hd Y))"
    and "is_list (spliced h (hd (Z @ [s])) (hd R) (hd Y)) s (A @ Y @ R @ Z)"
    and "dom (spliced h (hd (Z @ [s])) (hd R) (hd Y)) = dom h"
    and "\<forall>a. a \<notin> {last (s # A), hd Y, last Y, hd R, last R, hd (Z @ [s])}
           \<longrightarrow> spliced h (hd (Z @ [s])) (hd R) (hd Y) a = h a"
    using E(1)[of other] E(4) unfolding q_def f_def e_def fp_def pq_def lr_def by blast+
qed

lemma splice_at_range_end:
  assumes l: "is_list h s (A @ R @ Z)" and R: "R \<noteq> []"
  shows "splice h (Some (hd (Z @ [s]))) other (Some (hd R)) (Some (hd (Z @ [s]))) = Some h"
proof -
  define e where "e = hd (Z @ [s])"
  define f where "f = hd R"
  define fp where "fp = last (s # A)"
  define lr where "lr = last R"
  from l have d: "distinct (s # A @ R @ Z)" by (simp add: is_list_def)
  from l have "is_list h s ((A @ R) @ Z)" by simp
  from is_list_junction[OF this] R have Je: "nxt h lr = Some e" "prv h e = Some lr"
    by (simp_all add: e_def lr_def)
  from is_list_junction[OF l] R have Jf: "nxt h fp = Some f" "prv h f = Some fp"
    by (simp_all add: f_def fp_def)
  have mem: "e \<in> set (Z @ [s])" "f \<in> set R"
    unfolding e_def f_def by (rule hd_in_set[OF R] hd_snoc_in)+
  have fe: "f \<noteq> e" using mem d by auto
  have dm: "lr \<in> dom h" "fp \<in> dom h"
    by (rule nxt_dom[OF Je(1)] nxt_dom[OF Jf(1)])+
  note E = splice_eff[OF fe Je(2) Jf(2) Je(2) dm dm(1)]
  have "spliced h e f e = h"
  proof (rule heap_eqI)
    show "dom (spliced h e f e) = dom h" by (rule E(4))
    show "nxt (spliced h e f e) = nxt h" using Je Jf by (auto simp: E(2) fun_eq_iff)
    show "prv (spliced h e f e) = prv h" using Je Jf by (auto simp: E(3) fun_eq_iff)
  qed
  with E(1)[of other] show ?thesis by (simp add: e_def f_def)
qed

lemma card_le_six: "S \<subseteq> {a, b, c, d, e, f} \<Longrightarrow> card S \<le> 6"
proof -
  assume "S \<subseteq> {a, b, c, d, e, f}"
  then have "card S \<le> card (set [a, b, c, d, e, f])"
    by (intro card_mono) simp_all
  also have "\<dots> \<le> length [a, b, c, d, e, f]" by (rule card_length)
  finally show ?thesis by simp
qed

lemma changed_le_six:
  assumes "\<forall>x. x \<notin> {a, b, c, d, e, f} \<longrightarrow> h' x = (h x :: base_list_element option)"
  shows "card {x. h' x \<noteq> h x} \<le> 6"
  by (rule card_le_six[of _ a b c d e f]) (use assms in blast)

lemma splice_ring3_at_begin: "splice ring3 (Some 1) other (Some 1) (Some 2) = Some broken"
  by (simp add: splice_def get_prev_def set_next_def set_prev_def ring3_def broken_def Let_def fun_eq_iff)

lemma iterate_broken: "iterate h it e = Some y \<Longrightarrow> \<not> (h = broken \<and> it = Some 1 \<and> e = Some 0)"
proof (erule iterate.raw_induct[where P = "\<lambda>h it e y. \<not> (h = broken \<and> it = Some 1 \<and> e = Some 0)", rotated])
  fix iterate' :: "heap \<Rightarrow> ptr \<Rightarrow> ptr \<Rightarrow> addr list option" and h it e y
  assume IH: "\<And>h it e y. iterate' h it e = Some y \<Longrightarrow> \<not> (h = broken \<and> it = Some 1 \<and> e = Some 0)"
    and st: "(if it = e then Some []
      else case it of None \<Rightarrow> None
           | Some a \<Rightarrow>
               iter_inc h it \<bind> (\<lambda>n. iterate' h n e \<bind> (\<lambda>r. Some (a # r)))) = Some y"
  show "\<not> (h = broken \<and> it = Some 1 \<and> e = Some 0)"
  proof
    assume a: "h = broken \<and> it = Some 1 \<and> e = Some 0"
    with st obtain r where "iterate' broken (Some 1) (Some 0) = Some r"
      by (auto simp: iter_inc_def get_next_def broken_def split: bind_splits)
    from IH[OF this] show False by simp
  qed
qed

lemma to_list_broken: "to_list broken 0 = None"
proof (cases "to_list broken 0")
  case None then show ?thesis .
next
  case (Some y)
  then have "iterate broken (Some 1) (Some 0) = Some y"
    by (simp add: to_list_def begin_list_def get_next_def end_list_def broken_def)
  from iterate_broken[OF this] show ?thesis by simp
qed

lemma get_next_fail [simp]: "get_next h None = None" "a \<notin> dom h \<Longrightarrow> get_next h (Some a) = None"
  by (auto simp: get_next_def)

lemma get_prev_fail [simp]: "get_prev h None = None" "a \<notin> dom h \<Longrightarrow> get_prev h (Some a) = None"
  by (auto simp: get_prev_def)

lemma set_next_fail [simp]: "set_next h None v = None" "a \<notin> dom h \<Longrightarrow> set_next h (Some a) v = None"
  by (simp_all add: set_next_def domIff)

lemma set_prev_fail [simp]: "set_prev h None v = None" "a \<notin> dom h \<Longrightarrow> set_prev h (Some a) v = None"
  by (simp_all add: set_prev_def domIff)

lemma ctor_eff: "h a = None \<Longrightarrow> base_list_element_ctor h a = Some (allocated h a)"
  "h a \<noteq> None \<Longrightarrow> base_list_element_ctor h a = None"
  by (auto simp: base_list_element_ctor_def allocated_def)

lemma allocated_simps:
  assumes "h a = None"
  shows "nxt (allocated h a) = nxt h" "prv (allocated h a) = prv h"
    "dom (allocated h a) = insert a (dom h)"
  using assms by (auto simp: allocated_def nxt_def prv_def fun_eq_iff)

lemma release_simps:
  assumes "nxt h a = None" "prv h a = None"
  shows "nxt (h(a := None)) = nxt h" "prv (h(a := None)) = prv h" "dom (h(a := None)) = dom h - {a}"
  using assms by (auto simp: nxt_def prv_def fun_eq_iff)

lemma wf_same_links: "wf h \<Longrightarrow> nxt h' = nxt h \<Longrightarrow> prv h' = prv h \<Longrightarrow> wf h'"
  by (simp add: wf_iff)

lemma is_list_same_links:
  "is_list h s xs \<Longrightarrow> nxt h' = nxt h \<Longrightarrow> prv h' = prv h \<Longrightarrow> is_list h' s xs"
  by (simp add: is_list_def)

lemma tie_eff [simp]: "x \<in> dom h \<Longrightarrow> tie h (Some x) = Some (tied h x)"
  by (simp add: tie_def tied_def)

lemma tied_simps:
  assumes "x \<in> dom h"
  shows "nxt (tied h x) = (nxt h)(x := Some x)" "prv (tied h x) = (prv h)(x := Some x)"
    "dom (tied h x) = dom h"
  using assms by (simp_all add: tied_def)

lemma wf_tied:
  assumes "wf h" "x \<in> dom h" "prv h x = None \<or> nxt h x = Some x"
  shows "wf (tied h x)"
proof (cases "prv h x")
  case None
  with assms(1) have n: "nxt h x = None" by (simp add: wf_linked_both)
  from assms(1) have W: "wfF (nxt h) (prv h)" by (simp add: wf_iff)
  from wfF_tie[OF W n] assms(2) show ?thesis by (simp add: wf_iff tied_simps)
next
  case (Some p)
  with assms(3) have n: "nxt h x = Some x" by simp
  with assms(1) have "prv h x = Some x" by (simp add: wf_nxt_prv)
  with n have "(nxt h)(x := Some x) = nxt h" "(prv h)(x := Some x) = prv h" by auto
  with assms(1,2) show ?thesis by (simp add: wf_iff tied_simps)
qed

lemma dtor_linked:
  assumes w: "wf h" and p: "prv h x = Some p"
  shows "base_list_element_dtor h x = Some ((removed h x)(x := None))"
    and "nxt ((removed h x)(x := None)) = nxt (removed h x)"
    and "prv ((removed h x)(x := None)) = prv (removed h x)"
    and "dom ((removed h x)(x := None)) = dom h - {x}"
proof -
  from wf_prv_ex[OF w p] obtain n where n: "nxt h x = Some n" "n \<in> dom h" "p \<in> dom h" by blast
  have xd: "x \<in> dom h" using p by (rule prv_dom)
  note R = removed_simps[OF p n(1) n(3) n(2)]
  have xd1: "x \<in> dom (removed h x)" using xd R(3) by simp
  have z: "nxt (removed h x) x = None" "prv (removed h x) x = None" by (simp_all add: R)
  have un: "unlinked (removed h x) x = removed h x"
  proof (rule heap_eqI)
    show "dom (unlinked (removed h x) x) = dom (removed h x)" by (rule unlinked_simps(3)[OF xd1])
    show "nxt (unlinked (removed h x) x) = nxt (removed h x)"
      unfolding unlinked_simps(1)[OF xd1] using z(1) by (rule fun_upd_idem)
    show "prv (unlinked (removed h x) x) = prv (removed h x)"
      unfolding unlinked_simps(2)[OF xd1] using z(2) by (rule fun_upd_idem)
  qed
  show "base_list_element_dtor h x = Some ((removed h x)(x := None))"
    using xd p remove_eff[OF p n(1) n(3) n(2)] xd1 un
    by (simp add: base_list_element_dtor_def)
  from release_simps[OF z] R(3)
  show "nxt ((removed h x)(x := None)) = nxt (removed h x)"
    and "prv ((removed h x)(x := None)) = prv (removed h x)"
    and "dom ((removed h x)(x := None)) = dom h - {x}"
    by simp_all
qed

lemma dtor_unlinked:
  assumes w: "wf h" and xd: "x \<in> dom h" and p: "prv h x = None"
  shows "base_list_element_dtor h x = Some (h(x := None))"
    and "nxt (h(x := None)) = nxt h" and "prv (h(x := None)) = prv h"
    and "dom (h(x := None)) = dom h - {x}"
proof -
  from w p have n: "nxt h x = None" by (simp add: wf_linked_both)
  have un: "unlinked h x = h"
  proof (rule heap_eqI)
    show "dom (unlinked h x) = dom h" by (rule unlinked_simps(3)[OF xd])
    show "nxt (unlinked h x) = nxt h"
      unfolding unlinked_simps(1)[OF xd] using n by (rule fun_upd_idem)
    show "prv (unlinked h x) = prv h"
      unfolding unlinked_simps(2)[OF xd] using p by (rule fun_upd_idem)
  qed
  show "base_list_element_dtor h x = Some (h(x := None))"
    using xd p un by (simp add: base_list_element_dtor_def)
  from release_simps[OF n p]
  show "nxt (h(x := None)) = nxt h" and "prv (h(x := None)) = prv h"
    and "dom (h(x := None)) = dom h - {x}"
    by simp_all
qed

lemma dtor_fail: "x \<notin> dom h \<Longrightarrow> base_list_element_dtor h x = None"
  by (simp add: base_list_element_dtor_def is_linked_def)

lemma dtor_wf:
  assumes "wf h" "base_list_element_dtor h x = Some h'"
  shows "wf h'"
proof (cases "x \<in> dom h")
  case False
  with assms(2) show ?thesis by (simp add: dtor_fail)
next
  case True
  show ?thesis
  proof (cases "prv h x")
    case None
    note D = dtor_unlinked[OF assms(1) True None]
    from D(1) assms(2) have "h' = h(x := None)" by simp
    with wf_same_links[OF assms(1) D(2,3)] show ?thesis by simp
  next
    case (Some p)
    note D = dtor_linked[OF assms(1) Some]
    from D(1) assms(2) have "h' = (removed h x)(x := None)" by simp
    with wf_same_links[OF wf_removed[OF assms(1) Some] D(2,3)] show ?thesis by simp
  qed
qed

lemma wf_self_tied:
  assumes "wf h" "prv h x = Some p" "nxt h x = Some n"
  shows "p = x \<longleftrightarrow> n = x"
  using assms wf_nxt_prv[OF assms(1), of x x] by auto

lemma move_linked:
  assumes w: "wf h" and fresh: "h d = None" and p: "prv h x = Some p" and px: "p \<noteq> x"
  shows "base_list_element_move h d x = Some (moved h d x)"
    and "nxt (moved h d x) = (nxt h)(p := Some d, d := Some (the (nxt h x)), x := None)"
    and "prv (moved h d x) = (prv h)(the (nxt h x) := Some d, d := Some p, x := None)"
    and "dom (moved h d x) = insert d (dom h)"
proof -
  from wf_prv_ex[OF w p] obtain n where n: "nxt h x = Some n" "n \<in> dom h" "p \<in> dom h" by blast
  have nx: "n \<noteq> x" using wf_self_tied[OF w p n(1)] px by simp
  have xd: "x \<in> dom h" using p by (rule prv_dom)
  note A = allocated_simps[of h d, OF fresh]
  have d0: "x \<in> dom (allocated h d)" "p \<in> dom (allocated h d)" "n \<in> dom (allocated h d)"
    "d \<in> dom (allocated h d)"
    using xd n by (simp_all add: A)
  show "base_list_element_move h d x = Some (moved h d x)"
    using fresh p n(1) px nx d0
    by (simp add: base_list_element_move_def moved_def ctor_eff A Let_def)
  show "nxt (moved h d x) = (nxt h)(p := Some d, d := Some (the (nxt h x)), x := None)"
    using p n(1) d0 by (simp add: moved_def A Let_def)
  show "prv (moved h d x) = (prv h)(the (nxt h x) := Some d, d := Some p, x := None)"
    using p n(1) d0 by (simp add: moved_def A Let_def)
  show "dom (moved h d x) = insert d (dom h)"
    using p n(1) d0 by (simp add: moved_def A Let_def)
qed

lemma move_unlinked:
  assumes w: "wf h" and fresh: "h d = None" and xd: "x \<in> dom h" and p: "prv h x = None"
  shows "base_list_element_move h d x = Some (allocated h d)"
proof -
  from w p have n: "nxt h x = None" by (simp add: wf_linked_both)
  note A = allocated_simps[of h d, OF fresh]
  have d0: "x \<in> dom (allocated h d)" "d \<in> dom (allocated h d)" using xd by (simp_all add: A)
  have nd: "nxt h d = None" "prv h d = None" using fresh by (simp_all add: nxt_def prv_def)
  let ?h4 = "wr_prev (wr_next (allocated h d) d None) d None"
  have "unlinked ?h4 x = allocated h d"
  proof (rule heap_eqI)
    show "dom (unlinked ?h4 x) = dom (allocated h d)" using d0 by simp
    show "nxt (unlinked ?h4 x) = nxt (allocated h d)" using d0 n nd by (auto simp: A fun_eq_iff)
    show "prv (unlinked ?h4 x) = prv (allocated h d)" using d0 p nd by (auto simp: A fun_eq_iff)
  qed
  then show ?thesis
    using fresh p n d0 by (simp add: base_list_element_move_def ctor_eff A)
qed

lemma wf_moved:
  assumes w: "wf h" and fresh: "h d = None" and p: "prv h x = Some p" and px: "p \<noteq> x"
  shows "wf (moved h d x)"
proof -
  from wf_prv_ex[OF w p] obtain n where n: "nxt h x = Some n" by blast
  have nd: "nxt h d = None" using fresh by (simp add: nxt_def)
  from w have W: "wfF (nxt h) (prv h)" by (simp add: wf_iff)
  from wfF_move[OF W n p nd px] show ?thesis
    by (simp add: wf_iff move_linked(2,3)[OF w fresh p px] n)
qed

lemma is_list_moved:
  assumes w: "wf h" and l: "is_list h s xs" and x: "x \<in> set xs" and fresh: "h d = None"
  shows "is_list (moved h d x) s (map (\<lambda>a. if a = x then d else a) xs)"
proof -
  from x obtain A B where xs: "xs = A @ x # B" by (auto dest: split_list)
  from l have dd: "distinct (s # A @ x # B)" by (simp add: is_list_def xs)
  have dn: "d \<notin> set (s # xs)"
  proof
    assume "d \<in> set (s # xs)"
    from is_list_dom[OF l this] fresh show False by (simp add: domIff)
  qed
  let ?U = "s # A" and ?V = "B @ [s]"
  from l have L: "successively (lnk (nxt h) (prv h)) (?U @ x # ?V)"
    by (simp add: is_list_def xs)
  note sep = ring_sep[of s A B]
  have d2: "distinct (s # A @ B)" using dd by auto
  note R = links_remove[OF L _ _ _ _ _ _ sep[OF d2]]
  have n: "nxt h x = Some (hd ?V)" and p: "prv h x = Some (last ?U)"
    using R(2,3) dd by auto
  define pU where "pU = last ?U"
  define nV where "nV = hd ?V"
  have "pU \<in> set ?U" unfolding pU_def by (rule last_cons_in)
  with dd dn xs have px: "pU \<noteq> x" and pd: "pU \<noteq> d" by auto
  have "nV \<in> set ?V" unfolding nV_def by (rule hd_snoc_in)
  with dd dn xs have nx: "nV \<noteq> x" and nd: "nV \<noteq> d" by auto
  have xd: "x \<noteq> d" using dn x by auto
  have L1: "successively (lnk ((nxt h)(pU := Some nV, x := None))
      ((prv h)(nV := Some pU, x := None))) (?U @ ?V)"
    unfolding pU_def nV_def using R(1) dd by auto
  have L2: "successively (lnk (((nxt h)(pU := Some nV, x := None))(pU := Some d, d := Some nV))
      (((prv h)(nV := Some pU, x := None))(d := Some pU, nV := Some d))) (?U @ d # ?V)"
    unfolding pU_def nV_def
    by (rule links_insert[OF L1[unfolded pU_def nV_def] _ _ _ _ _ _ sep[OF d2]]) (use dd dn xs in auto)
  have p': "prv h x = Some pU" and n': "nxt h x = Some nV" using p n by (simp_all add: pU_def nV_def)
  have N: "nxt (moved h d x) = ((nxt h)(pU := Some nV, x := None))(pU := Some d, d := Some nV)"
    using px pd nx nd xd by (auto simp: move_linked(2)[OF w fresh p' px] n' fun_eq_iff)
  have P: "prv (moved h d x) = ((prv h)(nV := Some pU, x := None))(d := Some pU, nV := Some d)"
    using px pd nx nd xd by (auto simp: move_linked(3)[OF w fresh p' px] n' fun_eq_iff)
  have "x \<notin> set A" "x \<notin> set B" using dd by auto
  then have "map (\<lambda>a. if a = x then d else a) A = A" "map (\<lambda>a. if a = x then d else a) B = B"
    by (auto intro: map_idI)
  then have m: "map (\<lambda>a. if a = x then d else a) xs = A @ d # B"
    by (simp add: xs)
  have "distinct (s # A @ d # B)" using dd dn xs by auto
  with L2 show ?thesis unfolding m by (simp add: is_list_def N P)
qed

lemma wfF_move_list:
  assumes "wfF N P" "N t = Some y" "P t = Some l" "y \<noteq> t" "d \<noteq> t" "N d = None \<or> N d = Some d"
  shows "wfF (N(l := Some d, d := Some y, t := Some t)) (P(y := Some d, d := Some l, t := Some t))"
  using assms unfolding wfF_def fun_upd_apply
  by (smt (verit) option.inject option.distinct(1))

lemma empty_list_eff [simp]: "s \<in> dom h \<Longrightarrow> empty_list h s = Some (nxt h s = Some s)"
  by (simp add: empty_list_def end_list_def)

lemma move_list_nonempty:
  assumes l: "is_list h t ys" and ne: "ys \<noteq> []" and dd: "d \<in> dom h" and dn: "d \<notin> set (t # ys)"
    and du: "(prv h d = None \<and> nxt h d = None) \<or> (prv h d = Some d \<and> nxt h d = Some d)"
  shows "\<exists>h'. move_list h d t = Some h' \<and> dom h' = dom h \<and>
           nxt h' = (nxt h)(last ys := Some d, d := Some (hd ys), t := Some t) \<and>
           prv h' = (prv h)(hd ys := Some d, d := Some (last ys), t := Some t)"
proof -
  define y where "y = hd ys"
  define lz where "lz = last ys"
  from l have dt: "distinct (t # ys)" by (simp add: is_list_def)
  have mem: "y \<in> set ys" "lz \<in> set ys" using ne by (simp_all add: y_def lz_def)
  with dt dn have neq: "y \<noteq> t" "lz \<noteq> t" "y \<noteq> d" "lz \<noteq> d" "d \<noteq> t" by auto
  from is_list_junction[of h t "[]" ys] l ne have ty: "nxt h t = Some y" "prv h y = Some t"
    by (simp_all add: y_def)
  from is_list_junction[of h t ys "[]"] l ne have lt: "nxt h lz = Some t" "prv h t = Some lz"
    by (simp_all add: lz_def)
  have td: "t \<in> dom h" using ty(1) by (rule nxt_dom)
  have yd: "y \<in> dom h" using ty(2) by (rule prv_dom)
  have ld: "lz \<in> dom h" using lt(1) by (rule nxt_dom)
  note R = removed_simps[OF lt(2) ty(1) ld yd]
  note RE = remove_eff[OF lt(2) ty(1) ld yd]
  let ?h1 = "removed h t"
  have n1: "nxt ?h1 lz = Some y" using neq by (simp add: R)
  have d1: "y \<in> dom ?h1" "d \<in> dom ?h1" "lz \<in> dom ?h1" "t \<in> dom ?h1" using yd dd ld td by (simp_all add: R)
  from du show ?thesis
  proof
    assume u: "prv h d = None \<and> nxt h d = None"
    then have u1: "prv ?h1 d = None" using neq by (simp add: R)
    note IA = insert_after_unlinked[OF n1 d1(1) d1(2) u1]
    note LS = linked_simps[OF d1(3) d1(2) d1(1)]
    let ?h2 = "linked ?h1 lz d y"
    have t2: "t \<in> dom ?h2" using d1 by (simp add: LS)
    have "move_list h d t = Some (tied ?h2 t)"
      using td ty(1) neq lt(2) RE IA t2 by (simp add: move_list_def)
    moreover have "dom (tied ?h2 t) = dom h" by (simp add: tied_simps[OF t2] LS R)
    moreover have "nxt (tied ?h2 t) = (nxt h)(lz := Some d, d := Some y, t := Some t)"
      using neq u by (auto simp: tied_simps[OF t2] LS R fun_eq_iff)
    moreover have "prv (tied ?h2 t) = (prv h)(y := Some d, d := Some lz, t := Some t)"
      using neq u by (auto simp: tied_simps[OF t2] LS R fun_eq_iff)
    ultimately show ?thesis unfolding y_def lz_def by blast
  next
    assume s: "prv h d = Some d \<and> nxt h d = Some d"
    then have s1: "prv ?h1 d = Some d" "nxt ?h1 d = Some d" using neq by (simp_all add: R)
    note IA = insert_after_linked[OF n1 d1(1) s1 d1(2) d1(2)]
    note R2 = removed_simps[OF s1 d1(2) d1(2)]
    let ?h1' = "removed ?h1 d"
    have d1': "y \<in> dom ?h1'" "d \<in> dom ?h1'" "lz \<in> dom ?h1'" "t \<in> dom ?h1'" using d1 by (simp_all add: R2)
    note LS = linked_simps[OF d1'(3) d1'(2) d1'(1)]
    let ?h2 = "linked ?h1' lz d y"
    have t2: "t \<in> dom ?h2" using d1' by (simp add: LS)
    have "move_list h d t = Some (tied ?h2 t)"
      using td ty(1) neq lt(2) RE IA t2 by (simp add: move_list_def)
    moreover have "dom (tied ?h2 t) = dom h" by (simp add: tied_simps[OF t2] LS R2 R)
    moreover have "nxt (tied ?h2 t) = (nxt h)(lz := Some d, d := Some y, t := Some t)"
      using neq s by (auto simp: tied_simps[OF t2] LS R2 R fun_eq_iff)
    moreover have "prv (tied ?h2 t) = (prv h)(y := Some d, d := Some lz, t := Some t)"
      using neq s by (auto simp: tied_simps[OF t2] LS R2 R fun_eq_iff)
    ultimately show ?thesis unfolding y_def lz_def by blast
  qed
qed

lemma move_list_lists:
  assumes l: "is_list h t ys" and dd: "d \<in> dom h" and dn: "d \<notin> set (t # ys)"
    and du: "(prv h d = None \<and> nxt h d = None) \<or> (prv h d = Some d \<and> nxt h d = Some d)"
  shows "\<exists>h'. move_list h d t = Some h' \<and> dom h' = dom h \<and> is_list h' d ys \<and> is_list h' t [] \<and>
           (wf h \<longrightarrow> wf h')"
proof (cases "ys = []")
  case True
  with l have tt: "nxt h t = Some t" "prv h t = Some t" using is_list_junction[of h t "[]" "[]"] by simp_all
  have td: "t \<in> dom h" using tt(1) by (rule nxt_dom)
  from dn have neq: "d \<noteq> t" by simp
  have m: "move_list h d t = Some (tied h d)" using td tt dd by (simp add: move_list_def)
  note T = tied_simps[OF dd]
  have "is_list (tied h d) d []" by (simp add: is_list_def lnk_def T)
  moreover have "is_list (tied h d) t []" using tt neq by (simp add: is_list_def lnk_def T)
  moreover have "wf h \<longrightarrow> wf (tied h d)" using wf_tied[OF _ dd] du by auto
  ultimately show ?thesis using m True T(3) by simp
next
  case False
  from move_list_nonempty[OF l False dd dn du] obtain h' where
    h': "move_list h d t = Some h'" "dom h' = dom h"
    and N: "nxt h' = (nxt h)(last ys := Some d, d := Some (hd ys), t := Some t)"
    and P: "prv h' = (prv h)(hd ys := Some d, d := Some (last ys), t := Some t)" by blast
  from l have dt: "distinct (t # ys)" by (simp add: is_list_def)
  have mem: "hd ys \<in> set ys" "last ys \<in> set ys" using False by simp_all
  with dt dn have neq: "hd ys \<noteq> t" "last ys \<noteq> t" "hd ys \<noteq> d" "last ys \<noteq> d" "d \<noteq> t" by auto
  from l have L: "successively (lnk (nxt h) (prv h)) ((t # ys) @ [t])" by (simp add: is_list_def)
  then have Ly: "successively (lnk (nxt h) (prv h)) ys"
    by (simp add: successively_Cons successively_append_iff)
  have F: "successively (lnk (nxt h') (prv h')) ys"
  proof (rule links_frame2[OF Ly])
    fix u assume "u \<in> set (butlast ys)"
    then have "u \<noteq> last ys" "u \<in> set ys"
      using last_notin_butlast[of ys] dt False by (auto dest: in_set_butlastD)
    with dt dn show "nxt h' u = nxt h u" by (auto simp: N)
  next
    fix v assume "v \<in> set (tl ys)"
    then have "v \<noteq> hd ys" "v \<in> set ys"
      using hd_notin_tl[of ys] dt False by (auto dest: list.set_sel(2))
    with dt dn show "prv h' v = prv h v" by (auto simp: P)
  qed
  have J: "lnk (nxt h') (prv h') d (hd ys)" "lnk (nxt h') (prv h') (last ys) d" "lnk (nxt h') (prv h') t t"
    using neq by (simp_all add: lnk_def N P)
  have "successively (lnk (nxt h') (prv h')) (d # ys @ [d])"
    using F J False by (simp add: successively_Cons successively_append_iff)
  then have r1: "is_list h' d ys" using dt dn by (simp add: is_list_def)
  have r2: "is_list h' t []" using J(3) by (simp add: is_list_def)
  have r3: "wf h'" if w: "wf h"
  proof -
    from is_list_junction[of h t "[]" ys] l False have ty: "nxt h t = Some (hd ys)" by simp
    from is_list_junction[of h t ys "[]"] l False have lt: "prv h t = Some (last ys)" by simp
    from w have W: "wfF (nxt h) (prv h)" by (simp add: wf_iff)
    from du have "nxt h d = None \<or> nxt h d = Some d" by auto
    from wfF_move_list[OF W ty lt neq(1) neq(5) this] show ?thesis
      by (simp add: wf_iff N P)
  qed
  from h' r1 r2 r3 show ?thesis by blast
qed

lemma get_prev_SomeD: "get_prev h p = Some v \<Longrightarrow> \<exists>a. p = Some a \<and> a \<in> dom h \<and> v = prv h a"
  by (auto simp: get_prev_def prv_def split: option.splits)

lemma get_next_SomeD: "get_next h p = Some v \<Longrightarrow> \<exists>a. p = Some a \<and> a \<in> dom h \<and> v = nxt h a"
  by (auto simp: get_next_def nxt_def split: option.splits)

lemma set_next_SomeD: "set_next h p v = Some h' \<Longrightarrow> \<exists>a. p = Some a \<and> a \<in> dom h"
  by (auto simp: set_next_def split: option.splits)

lemma set_prev_SomeD: "set_prev h p v = Some h' \<Longrightarrow> \<exists>a. p = Some a \<and> a \<in> dom h"
  by (auto simp: set_prev_def split: option.splits)

lemma remove_elem_wf:
  assumes w: "wf h" and r: "remove_elem h this = Some r"
  shows "wf (fst r)" and "dom (fst r) = dom h"
    and "\<exists>x p n. this = Some x \<and> prv h x = Some p \<and> nxt h x = Some n \<and> fst r = removed h x"
proof -
  from r obtain res p n h1 where g: "get_next h this = Some res" "get_prev h this = Some p"
    "get_next h this = Some n" "set_next h p n = Some h1"
    unfolding remove_elem_def by (auto split: bind_splits)
  from get_prev_SomeD[OF g(2)] obtain x where x: "this = Some x" "x \<in> dom h" "p = prv h x" by blast
  from set_next_SomeD[OF g(4)] x(3) obtain pa where pa: "prv h x = Some pa" by auto
  from wf_prv_ex[OF w pa] obtain na where na: "nxt h x = Some na" "na \<in> dom h" "pa \<in> dom h" by blast
  from remove_eff[OF pa na(1) na(3) na(2)] r x(1) have e: "fst r = removed h x" by auto
  show "wf (fst r)" unfolding e by (rule wf_removed[OF w pa])
  show "dom (fst r) = dom h" unfolding e by (rule removed_simps(3)[OF pa na(1) na(3) na(2)])
  from x(1) pa na(1) e
  show "\<exists>x p n. this = Some x \<and> prv h x = Some p \<and> nxt h x = Some n \<and> fst r = removed h x" by blast
qed

lemma detached_nxt_other:
  assumes w: "wf h" and ux: "u \<noteq> x" and nu: "nxt h u \<noteq> Some x"
  shows "nxt (detached h x) u = nxt h u"
proof (cases "prv h x")
  case None
  then show ?thesis by (simp add: detached_def)
next
  case (Some p)
  from wf_prv_ex[OF w Some] obtain n where n: "nxt h x = Some n" "n \<in> dom h" "p \<in> dom h"
    "nxt h p = Some x" by blast
  from n(4) nu have "u \<noteq> p" by auto
  with ux show ?thesis
    by (simp add: detached_def Some removed_simps(1)[OF Some n(1) n(3) n(2)])
qed

lemma insert_elem_wf:
  assumes w: "wf h" and r: "insert_elem h pos x = Some r"
  shows "wf (fst r)" and "dom (fst r) = dom h"
proof -
  have "wf (fst r) \<and> dom (fst r) = dom h"
  proof (cases "pos = Some x \<or> get_prev h pos = Some (Some x)")
    case True
    from insert_elem_guard[OF True] r w show ?thesis by auto
  next
    case False
    with r obtain tp first r1 where g: "get_prev h pos = Some tp" "get_prev h pos = Some first"
      "insert_after h first (Some x) = Some r1"
      unfolding insert_elem_def by (auto simp: Let_def split: bind_splits if_splits)
    from get_prev_SomeD[OF g(2)] obtain q where q: "pos = Some q" "q \<in> dom h" "first = prv h q"
      by blast
    from g(3) obtain third l where i: "get_next h first = Some third" "is_linked h (Some x) = Some l"
      unfolding insert_after_def by (auto split: bind_splits)
    from get_next_SomeD[OF i(1)] q(3) obtain f where f: "prv h q = Some f" by auto
    from i(2) obtain px where "get_prev h (Some x) = Some px"
      unfolding is_linked_def by (auto split: bind_splits)
    from get_prev_SomeD[OF this] have xd: "x \<in> dom h" by auto
    from False q(1) q(2) f have fx: "f \<noteq> x" and xq: "x \<noteq> q" by auto
    from insert_elem_relink[OF w xd f fx xq] r q(1)
    have e: "fst r = linked (detached h x) f x q" by auto
    note D = detached_props[OF w xd]
    from wf_prv_ex[OF w f] have nf: "nxt h f = Some q" "f \<in> dom h" by auto
    from nf(1) xq have "nxt h f \<noteq> Some x" by simp
    from detached_nxt_other[OF w fx this] nf(1) have nf': "nxt (detached h x) f = Some q" by simp
    have "wf (linked (detached h x) f x q)"
      by (rule wf_linked[OF D(1) _ D(3) nf']) (simp add: D(2) xd)
    moreover have "dom (linked (detached h x) f x q) = dom h"
      using linked_simps(3)[of f "detached h x" x q] nf(2) xd q(2) by (simp add: D(2))
    ultimately show ?thesis by (simp add: e)
  qed
  then show "wf (fst r)" and "dom (fst r) = dom h" by simp_all
qed

lemma splice_wf:
  assumes w: "wf h" and nb: "pos \<noteq> b" and r: "splice h pos other b e = Some h'"
  shows "wf h'" and "dom h' = dom h"
proof -
  have "wf h' \<and> dom h' = dom h"
  proof (cases "b = e")
    case True
    with r w show ?thesis by (simp add: splice_def)
  next
    case False
    with r obtain lz fp h1 fp' h2 pp h3 pp' h4 h5 where g:
      "get_prev h e = Some lz" "get_prev h b = Some fp" "set_next h fp e = Some h1"
      "get_prev h1 b = Some fp'" "set_prev h1 e fp' = Some h2" "get_prev h2 pos = Some pp"
      "set_next h2 pp b = Some h3" "get_prev h3 pos = Some pp'" "set_prev h3 b pp' = Some h4"
      "set_next h4 lz pos = Some h5" "set_prev h5 pos lz = Some h'"
      unfolding splice_def by (auto simp: Let_def split: bind_splits)
    from get_prev_SomeD[OF g(1)] obtain e' where e': "e = Some e'" "e' \<in> dom h" "lz = prv h e'" by blast
    from get_prev_SomeD[OF g(2)] obtain f where f: "b = Some f" "f \<in> dom h" "fp = prv h f" by blast
    from set_next_SomeD[OF g(3)] f(3) obtain fpa where fpa: "prv h f = Some fpa" "fpa \<in> dom h" by auto
    from set_next_SomeD[OF g(10)] e'(3) obtain l where l: "prv h e' = Some l" by auto
    from get_prev_SomeD[OF g(6)] obtain q where q: "pos = Some q" "q \<in> dom h2" "pp = prv h2 q" by blast
    from set_next_SomeD[OF g(7)] q(3) obtain ppa where ppa: "prv h2 q = Some ppa" by auto
    from g(3) fpa f(3) e'(1) have h1: "h1 = wr_next h fpa (Some e')" by simp
    from g(4) f(1) f(2) fpa have "fp' = Some fpa" by (simp add: h1)
    moreover have "e' \<in> dom h1" by (simp add: h1 e'(2) fpa(2))
    ultimately have h2: "h2 = wr_prev h1 e' (Some fpa)"
      using g(5) e'(1) set_prev_wr[of e' h1 "Some fpa"] by simp
    have "\<exists>pq. prv h q = Some pq"
    proof (cases "q = e'")
      case True
      with l show ?thesis by simp
    next
      case False
      with ppa e'(2) fpa(2) show ?thesis by (simp add: h2 h1)
    qed
    then obtain pq where pq: "prv h q = Some pq" by blast
    from wf_prv_ex[OF w l] wf_prv_ex[OF w pq] have d: "l \<in> dom h" "pq \<in> dom h" by auto
    from False e'(1) f(1) have fe: "f \<noteq> e'" by simp
    from nb q(1) f(1) have qf: "q \<noteq> f" by simp
    note S = splice_eff[OF fe l fpa(1) pq d(1) fpa(2) d(2)]
    from S(1) r q(1) f(1) e'(1) have e: "h' = spliced h q f e'" by simp
    have "wfF (nxt h') (prv h')"
    proof (cases "q = e'")
      case True
      from wf_prv_ex[OF w l] wf_prv_ex[OF w fpa(1)] have "nxt h l = Some e'" "nxt h fpa = Some f" by auto
      then have "nxt h' = nxt h" "prv h' = prv h"
        using True l fpa(1) pq unfolding e S(2) S(3) by (auto simp: fun_eq_iff)
      with w show ?thesis by (simp add: wf_iff)
    next
      case False
      from wfF_splice[OF w[unfolded wf_iff] fpa(1) l pq fe qf False] False
      show ?thesis unfolding e S(2) S(3) by simp
    qed
    then show ?thesis by (simp add: wf_iff e S(4))
  qed
  then show "wf h'" and "dom h' = dom h" by simp_all
qed

lemma tie_SomeD: "tie h p = Some h' \<Longrightarrow> \<exists>a. p = Some a \<and> a \<in> dom h \<and> h' = tied h a"
proof -
  assume t: "tie h p = Some h'"
  then obtain h1 where "set_next h p p = Some h1" unfolding tie_def by (auto split: bind_splits)
  from set_next_SomeD[OF this] obtain a where a: "p = Some a" "a \<in> dom h" by blast
  with t show ?thesis by simp
qed

lemma empty_list_SomeD: "empty_list h s = Some e \<Longrightarrow> s \<in> dom h \<and> e = (nxt h s = Some s)"
proof -
  assume e: "empty_list h s = Some e"
  then obtain b where "get_next h (Some s) = Some b"
    unfolding empty_list_def begin_list_def by (auto split: bind_splits)
  from get_next_SomeD[OF this] have "s \<in> dom h" by simp
  with e show ?thesis by simp
qed

lemma pop_front_wf:
  assumes w: "wf h" and r: "pop_front h s = Some h'"
  shows "wf h'" and "dom h' = dom h"
proof -
  from r obtain b r1 where "erase h b = Some r1" "h' = fst r1"
    unfolding pop_front_def by (auto split: bind_splits)
  with remove_elem_wf(1,2)[OF w, of b r1] show "wf h'" and "dom h' = dom h"
    by (simp_all add: erase_def)
qed

lemma pop_back_wf:
  assumes w: "wf h" and r: "pop_back h s = Some h'"
  shows "wf h'" and "dom h' = dom h"
proof -
  from r obtain b r1 where "erase h b = Some r1" "h' = fst r1"
    unfolding pop_back_def by (auto split: bind_splits)
  with remove_elem_wf(1,2)[OF w, of b r1] show "wf h'" and "dom h' = dom h"
    by (simp_all add: erase_def)
qed

lemma push_back_wf:
  assumes w: "wf h" and r: "push_back h s x = Some h'"
  shows "wf h'" and "dom h' = dom h"
proof -
  from r obtain r1 where "insert_elem h (end_list s) x = Some r1" "h' = fst r1"
    unfolding push_back_def by auto
  with insert_elem_wf[OF w, of "end_list s" x r1] show "wf h'" and "dom h' = dom h" by simp_all
qed

lemma push_front_wf:
  assumes w: "wf h" and r: "push_front h s x = Some h'"
  shows "wf h'" and "dom h' = dom h"
proof -
  from r obtain b r1 where "insert_elem h b x = Some r1" "h' = fst r1"
    unfolding push_front_def by (auto split: bind_splits)
  with insert_elem_wf[OF w, of b x r1] show "wf h'" and "dom h' = dom h" by simp_all
qed

lemma untie_all_wf:
  "untie_all h s = Some h' \<Longrightarrow> wf h \<longrightarrow> wf h' \<and> dom h' = dom h \<and> s \<in> dom h' \<and> nxt h' s = Some s"
proof (erule untie_all.raw_induct[where P = "\<lambda>h s h'. wf h \<longrightarrow> wf h' \<and> dom h' = dom h \<and> s \<in> dom h' \<and> nxt h' s = Some s", rotated])
  fix untie_all' :: "heap \<Rightarrow> addr \<Rightarrow> heap option" and h this y
  assume IH: "\<And>h this y. untie_all' h this = Some y \<Longrightarrow>
      wf h \<longrightarrow> wf y \<and> dom y = dom h \<and> this \<in> dom y \<and> nxt y this = Some this"
    and st: "empty_list h this \<bind> (\<lambda>e. if e then Some h
        else pop_front h this \<bind> (\<lambda>h'. untie_all' h' this)) = Some y"
  show "wf h \<longrightarrow> wf y \<and> dom y = dom h \<and> this \<in> dom y \<and> nxt y this = Some this"
  proof
    assume w: "wf h"
    from st obtain e where e: "empty_list h this = Some e" by (auto split: bind_splits)
    note E = empty_list_SomeD[OF e]
    show "wf y \<and> dom y = dom h \<and> this \<in> dom y \<and> nxt y this = Some this"
    proof (cases e)
      case True
      with st e have "y = h" by simp
      with w E True show ?thesis by simp
    next
      case False
      with st e obtain h1 where h1: "pop_front h this = Some h1" "untie_all' h1 this = Some y"
        by (auto split: bind_splits)
      from pop_front_wf[OF w h1(1)] IH[OF h1(2)] E show ?thesis by simp
    qed
  qed
qed

lemma move_list_wf:
  assumes w: "wf h" and du: "prv h d = None \<or> nxt h d = Some d" and r: "move_list h d t = Some h'"
  shows "wf h'" and "dom h' = dom h"
proof -
  from r obtain e where e: "empty_list h t = Some e" unfolding move_list_def by (auto split: bind_splits)
  note E = empty_list_SomeD[OF e]
  have "wf h' \<and> dom h' = dom h"
  proof (cases e)
    case True
    with r e have "tie h (Some d) = Some h'" by (simp add: move_list_def)
    from tie_SomeD[OF this] have d: "d \<in> dom h" "h' = tied h d" by auto
    from wf_tied[OF w d(1) du] tied_simps(3)[OF d(1)] d(2) show ?thesis by simp
  next
    case False
    with r e obtain lz r1 r2 where g: "get_prev h (Some t) = Some lz"
      "remove_elem h (Some t) = Some r1" "insert_after (fst r1) lz (Some d) = Some r2"
      "tie (fst r2) (Some t) = Some h'"
      by (auto simp: move_list_def split: bind_splits)
    from remove_elem_wf(3)[OF w g(2)] obtain p n where
      pn: "prv h t = Some p" "nxt h t = Some n" "fst r1 = removed h t" by auto
    let ?h1 = "removed h t"
    from wf_prv_ex[OF w pn(1)] pn(2) have d0: "n \<in> dom h" "p \<in> dom h" "nxt h p = Some t" "prv h n = Some t"
      by auto
    note R = removed_simps[OF pn(1,2) d0(2,1)]
    have w1: "wf ?h1" by (rule wf_removed[OF w pn(1)])
    from False E pn(2) have nt: "n \<noteq> t" by simp
    with wf_self_tied[OF w pn(1,2)] have pt: "p \<noteq> t" by simp
    from g(1) E pn(1) have lz: "lz = Some p" by simp
    from g(3) obtain l where "is_linked ?h1 (Some d) = Some l"
      unfolding insert_after_def pn(3) by (auto split: bind_splits)
    then obtain px where "get_prev ?h1 (Some d) = Some px"
      unfolding is_linked_def by (auto split: bind_splits)
    from get_prev_SomeD[OF this] have dd1: "d \<in> dom ?h1" by simp
    then have dd: "d \<in> dom h" by (simp add: R)
    have neq: "d \<noteq> t \<and> d \<noteq> p \<and> d \<noteq> n"
    proof (cases "prv h d")
      case None
      with w have "nxt h d = None" by (simp add: wf_linked_both)
      with None pn d0 show ?thesis by auto
    next
      case (Some a)
      with du have s: "nxt h d = Some d" by simp
      with w have "prv h d = Some d" by (simp add: wf_nxt_prv)
      with s pn d0 nt pt show ?thesis by auto
    qed
    have np: "nxt ?h1 p = Some n" using pt by (simp add: R)
    from insert_after_detached[OF w1 dd1 np] g(3) lz pn(3)
    have r2: "fst r2 = linked (detached ?h1 d) p d n" by auto
    let ?h2 = "linked (detached ?h1 d) p d n"
    note D = detached_props[OF w1 dd1]
    have "nxt ?h1 p \<noteq> Some d" using np neq by simp
    from detached_nxt_other[OF w1 _ this] neq np have np': "nxt (detached ?h1 d) p = Some n" by auto
    have w2: "wf ?h2" by (rule wf_linked[OF D(1) _ D(3) np']) (simp add: D(2) dd1)
    have dm: "p \<in> dom (detached ?h1 d)" "d \<in> dom (detached ?h1 d)" "n \<in> dom (detached ?h1 d)"
      using d0 dd by (simp_all add: D(2) R)
    note L = linked_simps[OF dm]
    have "prv ?h1 t = None" by (simp add: R)
    moreover from this have "prv ?h1 t \<noteq> Some d" by simp
    ultimately have "prv (detached ?h1 d) t = None"
      using detached_prv_other[of ?h1 t d] w1 neq by auto
    then have pt2: "prv ?h2 t = None" using neq nt by (simp add: L)
    have td: "t \<in> dom ?h2" using E by (simp add: L D(2) R)
    from g(4) tie_SomeD[of "fst r2" "Some t" h'] have h': "h' = tied ?h2 t" by (simp add: r2)
    from wf_tied[OF w2 td] pt2 tied_simps(3)[OF td] show ?thesis by (simp add: h' L D(2) R)
  qed
  then show "wf h'" and "dom h' = dom h" by simp_all
qed

lemma list_ctor_wf:
  assumes w: "wf h" and r: "list_ctor h s = Some h'"
  shows "wf h'"
proof -
  from r have f: "h s = None" unfolding list_ctor_def base_list_element_ctor_def
    by (auto split: bind_splits if_splits)
  note A = allocated_simps[of h s, OF f]
  have w0: "wf (allocated h s)" by (rule wf_same_links[OF w A(1,2)])
  have d: "s \<in> dom (allocated h s)" by (simp add: A)
  have p: "prv (allocated h s) s = None" using f by (simp add: A prv_def)
  from r f d have "h' = tied (allocated h s) s" by (simp add: list_ctor_def ctor_eff)
  with wf_tied[OF w0 d] p show ?thesis by simp
qed

lemma list_move_ctor_wf:
  assumes w: "wf h" and r: "list_move_ctor h d t = Some h'"
  shows "wf h'"
proof -
  from r have f: "h d = None" unfolding list_move_ctor_def base_list_element_ctor_def
    by (auto split: bind_splits if_splits)
  note A = allocated_simps[of h d, OF f]
  have w0: "wf (allocated h d)" by (rule wf_same_links[OF w A(1,2)])
  have p: "prv (allocated h d) d = None \<or> nxt (allocated h d) d = Some d"
    using f by (simp add: A prv_def)
  from r f have "move_list (allocated h d) d t = Some h'" by (simp add: list_move_ctor_def ctor_eff)
  from move_list_wf(1)[OF w0 p this] show ?thesis .
qed

lemma list_move_assign_wf:
  assumes w: "wf h" and r: "list_move_assign h d t = Some h'"
  shows "wf h'"
proof -
  from r obtain h1 where h1: "untie_all h d = Some h1" "move_list h1 d t = Some h'"
    unfolding list_move_assign_def by (auto split: bind_splits)
  from untie_all_wf[OF h1(1)] w have u: "wf h1" "nxt h1 d = Some d" by simp_all
  from move_list_wf(1)[OF u(1) _ h1(2)] u(2) show ?thesis by simp
qed

lemma list_dtor_wf:
  assumes w: "wf h" and r: "list_dtor h s = Some h'"
  shows "wf h'"
proof -
  from r obtain h1 where h1: "untie_all h s = Some h1" "base_list_element_dtor h1 s = Some h'"
    unfolding list_dtor_def by (auto split: bind_splits)
  from untie_all_wf[OF h1(1)] w have "wf h1" by simp
  from dtor_wf[OF this h1(2)] show ?thesis .
qed

lemma element_ctor_wf:
  assumes w: "wf h" and r: "base_list_element_ctor h a = Some h'"
  shows "wf h'"
proof -
  from r have f: "h a = None" unfolding base_list_element_ctor_def by (auto split: if_splits)
  note A = allocated_simps[of h a, OF f]
  from r f have "h' = allocated h a" by (simp add: ctor_eff)
  with wf_same_links[OF w A(1,2)] show ?thesis by simp
qed

lemma element_move_wf:
  assumes w: "wf h" and xd: "x \<in> dom h" and ns: "prv h x \<noteq> Some x"
    and r: "base_list_element_move h d x = Some h'"
  shows "wf h'"
proof -
  from r have f: "h d = None" unfolding base_list_element_move_def base_list_element_ctor_def
    by (auto split: bind_splits if_splits)
  note A = allocated_simps[of h d, OF f]
  show ?thesis
  proof (cases "prv h x")
    case None
    from move_unlinked[OF w f xd None] r have "h' = allocated h d" by simp
    with wf_same_links[OF w A(1,2)] show ?thesis by simp
  next
    case (Some p)
    with ns have px: "p \<noteq> x" by simp
    from move_linked(1)[OF w f Some px] r have "h' = moved h d x" by simp
    with wf_moved[OF w f Some px] show ?thesis by simp
  qed
qed

lemma wf_node_inv: "wf h \<Longrightarrow> node_inv h"
  unfolding node_inv_def
proof
  fix e assume w: "wf h" and "e \<in> ran h"
  then obtain a where a: "h a = Some e" by (auto simp: ran_def)
  with wf_linked_both[OF w, of a] show "prev e = None \<longleftrightarrow> next e = None"
    by (simp add: nxt_def prv_def)
qed

lemma wf_empty: "wf Map.empty"
  by (simp add: wf_def)

lemma run_call_wf:
  assumes w: "wf h" and pre: "call_pre h c" and r: "run_call h c = Some h'"
  shows "wf h'"
proof (cases c)
  case (Element_ctor a)
  with r element_ctor_wf[OF w] show ?thesis by simp
next
  case (Element_move d x)
  with pre have "x \<in> dom h" "prv h x \<noteq> Some x" by (auto simp: domIff)
  from element_move_wf[OF w this] r Element_move show ?thesis by simp
next
  case (Element_dtor x)
  with r dtor_wf[OF w] show ?thesis by simp
next
  case (List_ctor s)
  with r list_ctor_wf[OF w] show ?thesis by simp
next
  case (List_move_ctor d t)
  with r list_move_ctor_wf[OF w] show ?thesis by simp
next
  case (List_move_assign d t)
  with r list_move_assign_wf[OF w] show ?thesis by simp
next
  case (List_dtor s)
  with r list_dtor_wf[OF w] show ?thesis by simp
next
  case (List_insert pos x)
  with r insert_elem_wf(1)[OF w] show ?thesis by auto
next
  case (List_erase it)
  with r remove_elem_wf(1)[OF w] show ?thesis by (auto simp: erase_def)
next
  case (List_push_back s x)
  with r push_back_wf(1)[OF w] show ?thesis by simp
next
  case (List_push_front s x)
  with r push_front_wf(1)[OF w] show ?thesis by simp
next
  case (List_pop_back s)
  with r pop_back_wf(1)[OF w] show ?thesis by simp
next
  case (List_pop_front s)
  with r pop_front_wf(1)[OF w] show ?thesis by simp
next
  case (List_splice pos other b e)
  show ?thesis
  proof (cases "b = e")
    case True
    with r List_splice w show ?thesis by (simp add: splice_def)
  next
    case False
    with pre List_splice have "pos \<noteq> b" by simp
    from splice_wf(1)[OF w this] r List_splice show ?thesis by simp
  qed
qed

lemma run_calls_wf: "wf h \<Longrightarrow> calls_pre h cs \<Longrightarrow> run_calls h cs = Some h' \<Longrightarrow> wf h'"
proof (induction cs arbitrary: h)
  case Nil
  then show ?case by simp
next
  case (Cons c cs)
  from Cons.prems(3) obtain h1 where h1: "run_call h c = Some h1" "run_calls h1 cs = Some h'"
    by (auto split: bind_splits)
  from Cons.prems(2) h1(1) have pre: "call_pre h c" "calls_pre h1 cs" by simp_all
  from Cons.IH[OF run_call_wf[OF Cons.prems(1) pre(1) h1(1)] pre(2) h1(2)] show ?case .
qed

lemma session_runs: "run_calls Map.empty session \<noteq> None"
  by code_simp

lemma session_pre: "calls_pre Map.empty session"
  by code_simp

lemma session_linked:
  "map_option (\<lambda>h. (is_linked h (Some 6), is_linked h (Some 1), nxt h 5, nxt h 0, nxt h 1))
     (run_calls Map.empty session) = Some (Some False, Some True, Some 5, Some 1, Some 0)"
  by code_simp

lemma session_splice_at_begin_runs:
  "map_option (\<lambda>h. h 1) (run_calls Map.empty session_splice_at_begin) =
     Some (Some \<lparr>prev = Some 5, next = None\<rparr>)"
  by code_simp

lemma session_move_self_tied_runs:
  "map_option (\<lambda>h. (h 0, is_linked h (Some 0))) (run_calls Map.empty session_move_self_tied) =
     Some (Some \<lparr>prev = None, next = Some 5\<rparr>, Some False)"
  by code_simp

lemma not_node_inv:
  assumes "h a = Some e" "(prev e = None) \<noteq> (next e = None)"
  shows "\<not> node_inv h"
proof
  assume "node_inv h"
  moreover from assms(1) have "e \<in> ran h" by (rule ranI)
  ultimately have "(prev e = None) = (next e = None)" unfolding node_inv_def by (rule bspec)
  with assms(2) show False by simp
qed

lemma counted_bind [simp]:
  "counted n r \<bind> (\<lambda>(h, m). f h m) = r \<bind> (\<lambda>h. f h (Suc n))"
  by (cases r) (simp_all add: counted_def)

lemma splice_count_eq:
  "splice_count h pos other b e =
     map_option (\<lambda>h'. (h', if b = e then 0 else 6)) (splice h pos other b e)"
  unfolding splice_count_def splice_def Let_def
  by (auto simp: counted_def numeral_eq_Suc split: bind_splits)

lemma range_ends_differ:
  assumes "is_list h t (A @ R @ B)" "R \<noteq> []"
  shows "hd R \<noteq> hd (B @ [t])"
proof -
  from assms(1) have d: "distinct (t # A @ R @ B)" by (simp add: is_list_def)
  from assms(2) have "hd R \<in> set R" by simp
  moreover have "hd (B @ [t]) \<in> set B \<union> {t}" by (cases B) simp_all
  ultimately show ?thesis using d by auto
qed

lemma splice_count_six:
  assumes "splice h pos other (Some b) (Some e) = Some h'" "b \<noteq> e"
  shows "splice_count h pos other (Some b) (Some e) = Some (h', 6)"
  using assms by (simp add: splice_count_eq)

section \<open>The claims\<close>

lemma node_unlinked:
  assumes "x \<in> dom h" "nxt h x = None" "prv h x = None"
  shows "h x = Some \<lparr>prev = None, next = None\<rparr>"
  using assms by (auto simp: nxt_def prv_def)

lemma is_list_ring3: "is_list ring3 0 [1, 2]"
  by (simp add: is_list_def lnk_def nxt_def prv_def ring3_def)

lemma wf_ring3: "wf ring3"
  by (simp add: wf_def nxt_def prv_def ring3_def)

lemma is_list_two_lists: "is_list two_lists 0 [1, 2]" "is_list two_lists 10 [11]"
  by (simp_all add: is_list_def lnk_def nxt_def prv_def two_lists_def)

lemma wf_two_lists: "wf two_lists"
  by (simp add: wf_def nxt_def prv_def two_lists_def)

lemma wf_three_elements: "wf three_elements"
  by (simp add: wf_def nxt_def prv_def three_elements_def)

lemma is_list_three_elements: "is_list three_elements 0 []"
  by (simp add: is_list_def lnk_def nxt_def prv_def three_elements_def)

text \<open>
  Claim C1.  Run any sequence of \<open>push_front\<close>, \<open>push_back\<close>, \<open>insert\<close>, \<open>erase\<close>,
  \<open>pop_front\<close> and \<open>pop_back\<close> on a list, each under its precondition.  Every call
  returns, and iterating from \<open>begin()\<close> to \<open>end()\<close> afterwards visits exactly the
  sequence that the operations imply, as many nodes as that sequence has.  In the
  scenario of the specification, three \<open>push_back\<close> give \<open>1, 2, 3\<close>, \<open>erase(begin())\<close>
  gives \<open>2, 3\<close>, and \<open>push_front\<close> of the detached element gives \<open>1, 2, 3\<close> again.
\<close>

theorem iteration_follows_operations:
  assumes "wf h" "is_list h s xs" "ops_pre h s xs ops"
  shows "(\<exists>h'. exec_ops s h ops = Some h' \<and>
            is_list h' s (spec_ops ops xs) \<and>
            to_list h' s = Some (spec_ops ops xs) \<and>
            map_option length (to_list h' s) = Some (length (spec_ops ops xs))) \<and>
         (\<exists>h1 h2 h3.
            exec_ops 0 three_elements [Push_back 1, Push_back 2, Push_back 3] = Some h1 \<and>
            to_list h1 0 = Some [1, 2, 3] \<and>
            pop_front h1 0 = Some h2 \<and> to_list h2 0 = Some [2, 3] \<and>
            push_front h2 0 1 = Some h3 \<and> to_list h3 0 = Some [1, 2, 3])"
proof
  from exec_ops_correct[OF assms] obtain h' where
    h': "exec_ops s h ops = Some h'" "is_list h' s (spec_ops ops xs)" by blast
  from h' to_list_is_list[OF h'(2)]
  show "\<exists>h'. exec_ops s h ops = Some h' \<and>
            is_list h' s (spec_ops ops xs) \<and>
            to_list h' s = Some (spec_ops ops xs) \<and>
            map_option length (to_list h' s) = Some (length (spec_ops ops xs))"
    by simp
next
  have pre: "ops_pre three_elements 0 [] [Push_back 1, Push_back 2, Push_back 3]"
    by (simp add: three_elements_def)
  from exec_ops_correct[OF wf_three_elements is_list_three_elements pre] obtain h1 where
    h1: "exec_ops 0 three_elements [Push_back 1, Push_back 2, Push_back 3] = Some h1"
      "wf h1" "dom h1 = dom three_elements" "is_list h1 0 [1, 2, 3]"
    by auto
  have "op_pre h1 0 [1, 2, 3] Pop_front" by simp
  from exec_op_correct[OF h1(2) h1(4) this] obtain h2 where
    h2: "pop_front h1 0 = Some h2" "wf h2" "dom h2 = dom h1" "is_list h2 0 [2, 3]"
    by auto
  have "1 \<in> dom three_elements" by (simp add: three_elements_def)
  with h1(3) h2(3) have "h2 1 \<noteq> None" by (simp only: domIff[symmetric])
  then have "op_pre h2 0 [2, 3] (Push_front 1)" by simp
  from exec_op_correct[OF h2(2) h2(4) this] obtain h3 where
    h3: "push_front h2 0 1 = Some h3" "is_list h3 0 [1, 2, 3]"
    by auto
  from h1 h2 h3 to_list_is_list[OF h1(4)] to_list_is_list[OF h2(4)] to_list_is_list[OF h3(2)]
  show "\<exists>h1 h2 h3.
            exec_ops 0 three_elements [Push_back 1, Push_back 2, Push_back 3] = Some h1 \<and>
            to_list h1 0 = Some [1, 2, 3] \<and>
            pop_front h1 0 = Some h2 \<and> to_list h2 0 = Some [2, 3] \<and>
            push_front h2 0 1 = Some h3 \<and> to_list h3 0 = Some [1, 2, 3]"
    by blast
qed

theorem iteration_follows_operations_witness:
  "wf three_elements \<and> is_list three_elements 0 [] \<and>
   ops_pre three_elements 0 []
     [Push_back 1, Push_back 2, Push_front 3, Insert 2 1, Insert 3 2, Pop_back, Erase 2] \<and>
   (\<exists>h'. exec_ops 0 three_elements
           [Push_back 1, Push_back 2, Push_front 3, Insert 2 1, Insert 3 2, Pop_back, Erase 2] = Some h' \<and>
         to_list h' 0 = Some [3])"
proof -
  let ?ops = "[Push_back 1, Push_back 2, Push_front 3, Insert 2 1, Insert 3 2, Pop_back, Erase 2]"
  have pre: "ops_pre three_elements 0 [] ?ops"
    by (simp add: three_elements_def spec_insert_def ins_before_def)
  have sp: "spec_ops ?ops [] = [3]"
    by (simp add: spec_insert_def ins_before_def)
  from iteration_follows_operations[OF wf_three_elements is_list_three_elements pre]
  have "\<exists>h'. exec_ops 0 three_elements ?ops = Some h' \<and>
            is_list h' 0 (spec_ops ?ops []) \<and>
            to_list h' 0 = Some (spec_ops ?ops []) \<and>
            map_option length (to_list h' 0) = Some (length (spec_ops ?ops []))"
    by (rule conjunct1)
  then have "\<exists>h'. exec_ops 0 three_elements ?ops = Some h' \<and> to_list h' 0 = Some [3]"
    unfolding sp by blast
  with wf_three_elements is_list_three_elements pre show ?thesis by blast
qed

text \<open>
  Claim C4.  For a list holding \<open>xs\<close> and an iterator at a member \<open>x\<close>, \<open>erase\<close>
  returns, leaves \<open>x\<close> alive but unlinked, makes the two former neighbours of \<open>x\<close>
  reference each other, and returns the iterator that \<open>++\<close> would have reached from
  \<open>x\<close> before the call; the list then holds \<open>xs\<close> without \<open>x\<close>.  Erasing \<open>begin()\<close>
  until the list is empty (\<open>untie_all\<close>) terminates and leaves \<open>begin() == end()\<close>.
\<close>

theorem erase_detaches_and_returns_successor:
  assumes l: "is_list h s xs"
  shows "(\<forall>x \<in> set xs. \<exists>h' p n.
            erase h (Some x) = Some (h', Some n) \<and>
            iter_inc h (Some x) = Some (Some n) \<and>
            prv h x = Some p \<and>
            nxt h' p = Some n \<and> prv h' n = Some p \<and>
            h' x = Some \<lparr>prev = None, next = None\<rparr> \<and>
            dom h' = dom h \<and>
            is_list h' s (remove1 x xs) \<and>
            to_list h' s = Some (remove1 x xs)) \<and>
         (\<exists>h'. untie_all h s = Some h' \<and> begin_list h' s = Some (end_list s) \<and>
            empty_list h' s = Some True \<and> to_list h' s = Some [])"
proof (intro conjI ballI)
  fix x assume x: "x \<in> set xs"
  from is_list_removed[OF l x] obtain p n where
    *: "prv h x = Some p" "nxt h x = Some n" "p \<in> dom h" "n \<in> dom h"
    and ne: "p \<noteq> x" "n \<noteq> x"
    and l': "is_list (removed h x) s (remove1 x xs)" by blast
  have xd: "x \<in> dom h" using *(1) by (rule prv_dom)
  note R = removed_simps[OF *(1-4)]
  have "erase h (Some x) = Some (removed h x, Some n)"
    using remove_eff[OF *(1-4)] by (simp add: erase_def)
  moreover have "iter_inc h (Some x) = Some (Some n)"
    using xd *(2) by (simp add: iter_inc_def)
  moreover have "nxt (removed h x) p = Some n" "prv (removed h x) n = Some p"
    using ne by (simp_all add: R)
  moreover have "removed h x x = Some \<lparr>prev = None, next = None\<rparr>"
    by (rule node_unlinked) (simp_all add: R xd)
  moreover note R(3) l' to_list_is_list[OF l'] *(1)
  ultimately show "\<exists>h' p n.
            erase h (Some x) = Some (h', Some n) \<and>
            iter_inc h (Some x) = Some (Some n) \<and>
            prv h x = Some p \<and>
            nxt h' p = Some n \<and> prv h' n = Some p \<and>
            h' x = Some \<lparr>prev = None, next = None\<rparr> \<and>
            dom h' = dom h \<and>
            is_list h' s (remove1 x xs) \<and>
            to_list h' s = Some (remove1 x xs)"
    by blast
next
  from untie_all_is_list[OF l] obtain h' where
    h': "untie_all h s = Some h'" "is_list h' s []" by blast
  from is_list_begin[OF h'(2)] have b: "begin_list h' s = Some (Some s)" by simp
  show "\<exists>h'. untie_all h s = Some h' \<and> begin_list h' s = Some (end_list s) \<and>
            empty_list h' s = Some True \<and> to_list h' s = Some []"
    using h' b to_list_is_list[OF h'(2)] by (simp add: end_list_def empty_list_def)
qed

theorem erase_detaches_and_returns_successor_witness:
  "is_list ring3 0 [1, 2] \<and>
   (\<exists>h'. erase ring3 (Some 1) = Some (h', Some 2) \<and> to_list h' 0 = Some [2]) \<and>
   (\<exists>h'. untie_all ring3 0 = Some h' \<and> begin_list h' 0 = Some (end_list 0))"
proof -
  from erase_detaches_and_returns_successor[OF is_list_ring3]
  have a: "\<forall>x \<in> set [1, 2]. \<exists>h' p n.
            erase ring3 (Some x) = Some (h', Some n) \<and>
            iter_inc ring3 (Some x) = Some (Some n) \<and>
            prv ring3 x = Some p \<and>
            nxt h' p = Some n \<and> prv h' n = Some p \<and>
            h' x = Some \<lparr>prev = None, next = None\<rparr> \<and>
            dom h' = dom ring3 \<and>
            is_list h' 0 (remove1 x [1, 2]) \<and>
            to_list h' 0 = Some (remove1 x [1, 2])"
    and b: "\<exists>h'. untie_all ring3 0 = Some h' \<and> begin_list h' 0 = Some (end_list 0) \<and>
            empty_list h' 0 = Some True \<and> to_list h' 0 = Some []"
    by blast+
  from a have "\<exists>h' p n.
            erase ring3 (Some 1) = Some (h', Some n) \<and>
            iter_inc ring3 (Some 1) = Some (Some n) \<and>
            prv ring3 1 = Some p \<and>
            nxt h' p = Some n \<and> prv h' n = Some p \<and>
            h' 1 = Some \<lparr>prev = None, next = None\<rparr> \<and>
            dom h' = dom ring3 \<and>
            is_list h' 0 (remove1 1 [1, 2]) \<and>
            to_list h' 0 = Some (remove1 1 [1, 2])"
    by simp
  then obtain h' n where e: "erase ring3 (Some 1) = Some (h', Some n)"
    "iter_inc ring3 (Some 1) = Some (Some n)" "to_list h' 0 = Some (remove1 1 [1, 2])"
    by blast
  from e(2) have "n = 2" by (simp add: iter_inc_def get_next_def ring3_def)
  with e have "\<exists>h'. erase ring3 (Some 1) = Some (h', Some 2) \<and> to_list h' 0 = Some [2]"
    by auto
  with b is_list_ring3 show ?thesis by blast
qed

text \<open>
  Claim C10.  \<open>splice\<close> never reads the list passed as its second argument: two calls
  that differ only in that argument yield the same store.
\<close>

theorem splice_independent_of_other_list:
  "splice h position other1 begin_it end_it = splice h position other2 begin_it end_it"
  by (simp add: splice_def)

text \<open>
  Claim C2.  Let \<open>x\<close> be a linked node, in this list or in any other, and \<open>pos\<close> a
  position of the list \<open>s\<close>.  Then \<open>insert(pos, x)\<close> returns, the list \<open>s\<close> holds
  \<open>x\<close> exactly once, immediately before \<open>pos\<close> (when \<open>pos\<close> is not \<open>x\<close> itself), a list
  that held \<open>x\<close> before holds it no more and is otherwise unchanged, and the store is
  the one that \<open>erase(x)\<close> followed by \<open>insert(pos, x)\<close> yields.
\<close>

theorem insert_linked_is_erase_then_insert:
  assumes w: "wf h" and l: "is_list h s xs" and pos: "pos \<in> set (s # xs)"
    and xs: "x \<noteq> s" and lk: "prv h x \<noteq> None"
  shows "\<exists>h'. insert_elem h (Some pos) x = Some (h', Some x) \<and>
           is_list h' s (spec_insert pos x xs) \<and>
           to_list h' s = Some (spec_insert pos x xs) \<and>
           x \<in> set (spec_insert pos x xs) \<and> distinct (spec_insert pos x xs) \<and>
           (x \<noteq> pos \<longrightarrow> nxt h' x = Some pos \<and> prv h' pos = Some x) \<and>
           (\<forall>t ys. is_list h t ys \<and> set (t # ys) \<inter> set (s # xs) = {} \<and> x \<in> set ys \<longrightarrow>
              is_list h' t (remove1 x ys) \<and> to_list h' t = Some (remove1 x ys) \<and>
              x \<notin> set (remove1 x ys)) \<and>
           (x \<noteq> pos \<longrightarrow>
              insert_elem h (Some pos) x =
              erase h (Some x) \<bind> (\<lambda>r. insert_elem (fst r) (Some pos) x))"
proof -
  from lk obtain p where p: "prv h x = Some p" by auto
  then have xd: "x \<in> dom h" by (rule prv_dom)
  from is_list_prv[OF l pos] obtain f where f: "prv h pos = Some f" by blast
  from insert_elem_lists[OF w l pos xd xs] obtain h' where
    h': "insert_elem h (Some pos) x = Some (h', Some x)"
    "is_list h' s (spec_insert pos x xs)"
    "x \<noteq> pos \<longrightarrow> nxt h' x = Some pos \<and> prv h' pos = Some x"
    and others: "\<And>t ys. is_list h t ys \<Longrightarrow> set (t # ys) \<inter> set (s # xs) = {} \<Longrightarrow> x \<noteq> t
              \<Longrightarrow> is_list h' t (remove1 x ys)"
    by blast
  have mem: "x \<in> set (spec_insert pos x xs)"
    using pos xs by (auto simp: spec_insert_def ins_before_def)
  have dist: "distinct (spec_insert pos x xs)"
    using h'(2) by (simp add: is_list_def)
  have old: "is_list h' t (remove1 x ys) \<and> to_list h' t = Some (remove1 x ys) \<and>
              x \<notin> set (remove1 x ys)"
    if t: "is_list h t ys" "set (t # ys) \<inter> set (s # xs) = {}" "x \<in> set ys" for t ys
  proof -
    from t(1) have dt: "distinct (t # ys)" by (simp add: is_list_def)
    with t(3) have "x \<noteq> t" by auto
    from others[OF t(1,2) this] have "is_list h' t (remove1 x ys)" .
    with to_list_is_list[OF this] dt show ?thesis by auto
  qed
  have eq: "insert_elem h (Some pos) x =
              erase h (Some x) \<bind> (\<lambda>r. insert_elem (fst r) (Some pos) x)" if "x \<noteq> pos"
    by (rule insert_eq_erase_then_insert[OF w p f that])
  from h' to_list_is_list[OF h'(2)] mem dist old eq show ?thesis by blast
qed

theorem insert_linked_is_erase_then_insert_witness:
  "wf two_lists \<and> is_list two_lists 0 [1, 2] \<and> is_list two_lists 10 [11] \<and>
   prv two_lists 11 \<noteq> None \<and>
   (\<exists>h'. insert_elem two_lists (Some 2) 11 = Some (h', Some 11) \<and>
      to_list h' 0 = Some [1, 11, 2] \<and> to_list h' 10 = Some [] \<and>
      insert_elem two_lists (Some 2) 11 =
        erase two_lists (Some 11) \<bind> (\<lambda>r. insert_elem (fst r) (Some 2) 11))"
proof -
  have lk: "prv two_lists 11 \<noteq> None" by (simp add: prv_def two_lists_def)
  have pos: "(2::nat) \<in> set (0 # [1, 2])" and ne: "(11::nat) \<noteq> 0" by simp_all
  from insert_linked_is_erase_then_insert[OF wf_two_lists is_list_two_lists(1) pos ne lk]
  obtain h' where h': "insert_elem two_lists (Some 2) 11 = Some (h', Some 11)"
    "to_list h' 0 = Some (spec_insert 2 11 [1, 2])"
    "\<forall>t ys. is_list two_lists t ys \<and> set (t # ys) \<inter> set (0 # [1, 2]) = {} \<and> 11 \<in> set ys \<longrightarrow>
              is_list h' t (remove1 11 ys) \<and> to_list h' t = Some (remove1 11 ys) \<and>
              11 \<notin> set (remove1 11 ys)"
    "(11::nat) \<noteq> 2 \<longrightarrow> insert_elem two_lists (Some 2) 11 =
        erase two_lists (Some 11) \<bind> (\<lambda>r. insert_elem (fst r) (Some 2) 11)"
    by blast
  from h'(3)[rule_format, of 10 "[11]"] is_list_two_lists(2)
  have "to_list h' 10 = Some (remove1 11 [11])" by simp
  moreover have "spec_insert 2 11 [1, 2] = [1, 11, 2]" by (simp add: spec_insert_def ins_before_def)
  ultimately show ?thesis using h' lk wf_two_lists is_list_two_lists by auto
qed

text \<open>
  Claim C5 (as amended).  The guard of \<open>insert\<close> is \<open>second == third || second ==
  third->prev\<close>: when \<open>pos\<close> is the element itself, or the node before \<open>pos\<close> is the
  element, \<open>insert\<close> returns the iterator to the element and the store is untouched.
\<close>

theorem insert_guard_is_noop:
  assumes "pos = Some x \<or> get_prev h pos = Some (Some x)"
  shows "insert_elem h pos x = Some (h, Some x)"
  using assms by (rule insert_elem_guard)

theorem insert_guard_is_noop_witness:
  "get_prev ring3 (Some 2) = Some (Some 1) \<and> insert_elem ring3 (Some 2) 1 = Some (ring3, Some 1)"
proof -
  have g: "get_prev ring3 (Some 2) = Some (Some 1)" by (simp add: get_prev_def ring3_def)
  then have "Some 2 = Some (1::nat) \<or> get_prev ring3 (Some 2) = Some (Some 1)" by simp
  from insert_guard_is_noop[OF this] g show ?thesis by simp
qed

text \<open>
  The claim as it is worded takes the position to be the immediate predecessor of the
  element.  There \<open>insert\<close> is no no-op: in the list holding \<open>1, 2\<close>, inserting \<open>2\<close>
  at the position of \<open>1\<close>, its predecessor, yields \<open>2, 1\<close>.
\<close>

theorem insert_at_predecessor_counterexample:
  "to_list ring3 0 = Some [1, 2] \<and> prv ring3 2 = Some 1 \<and>
   (\<exists>h'. insert_elem ring3 (Some 1) 2 = Some (h', Some 2) \<and> h' \<noteq> ring3 \<and>
      to_list h' 0 = Some [2, 1])"
proof -
  have pos: "(1::nat) \<in> set (0 # [1, 2])" and ne: "(2::nat) \<noteq> 0" by simp_all
  have d: "(2::nat) \<in> dom ring3" by (simp add: ring3_def)
  from insert_elem_lists[OF wf_ring3 is_list_ring3 pos d ne] obtain h' where
    h': "insert_elem ring3 (Some 1) 2 = Some (h', Some 2)" "is_list h' 0 (spec_insert 1 2 [1, 2])"
    by blast
  have sp: "spec_insert 1 2 [1, 2] = [2, 1]" by (simp add: spec_insert_def ins_before_def)
  from h'(2) have t': "to_list h' 0 = Some [2, 1]" unfolding sp by (rule to_list_is_list)
  have "to_list ring3 0 = Some [1, 2]" by (rule to_list_is_list[OF is_list_ring3])
  with t' have "h' \<noteq> ring3" by auto
  with h' t' \<open>to_list ring3 0 = Some [1, 2]\<close> show ?thesis
    by (auto simp: prv_def ring3_def)
qed

text \<open>
  Claim C3.  The range \<open>R\<close> is a non-empty run of consecutive members of a source list,
  \<open>rangeBegin\<close> its first node and \<open>rangeEnd\<close> the node after its last; \<open>pos\<close> is the
  sentinel or a member of the destination list and no node of \<open>R\<close>.  The destination is
  another list (second conjunct) or the source itself, with \<open>pos\<close> before the range
  (third), after it (fourth) or \<open>pos == rangeEnd\<close> (fifth, where the store is the same
  afterwards).  Then \<open>splice\<close> returns, the nodes of \<open>R\<close> stand immediately before \<open>pos\<close>
  in their old order, every other element keeps its place, the two lists together hold
  as many elements as before, and the call performs six reference writes, whatever the
  length of \<open>R\<close>, so that the store differs from the old one in at most six nodes.  An
  empty range (first conjunct) returns the store as it is, with no write.
\<close>

theorem splice_relocates_range:
  "splice h pos other b b = Some h \<and> splice_count h pos other b b = Some (h, 0) \<and>
   (is_list h t (A @ R @ B) \<and> R \<noteq> [] \<and> is_list h s (X @ Y) \<and>
    set (t # A @ R @ B) \<inter> set (s # X @ Y) = {} \<longrightarrow>
      (\<exists>h'. splice h (Some (hd (Y @ [s]))) other (Some (hd R)) (Some (hd (B @ [t]))) = Some h' \<and>
         is_list h' t (A @ B) \<and> is_list h' s (X @ R @ Y) \<and>
         to_list h' t = Some (A @ B) \<and> to_list h' s = Some (X @ R @ Y) \<and>
         length (A @ B) + length (X @ R @ Y) = length (A @ R @ B) + length (X @ Y) \<and>
         splice_count h (Some (hd (Y @ [s]))) other (Some (hd R)) (Some (hd (B @ [t]))) =
           Some (h', 6) \<and>
         card {a. h' a \<noteq> h a} \<le> 6)) \<and>
   (is_list h s (X @ Y @ R @ B) \<and> Y \<noteq> [] \<and> R \<noteq> [] \<longrightarrow>
      (\<exists>h'. splice h (Some (hd Y)) other (Some (hd R)) (Some (hd (B @ [s]))) = Some h' \<and>
         is_list h' s (X @ R @ Y @ B) \<and> to_list h' s = Some (X @ R @ Y @ B) \<and>
         length (X @ R @ Y @ B) = length (X @ Y @ R @ B) \<and>
         splice_count h (Some (hd Y)) other (Some (hd R)) (Some (hd (B @ [s]))) = Some (h', 6) \<and>
         card {a. h' a \<noteq> h a} \<le> 6)) \<and>
   (is_list h s (A @ R @ Y @ Z) \<and> R \<noteq> [] \<and> Y \<noteq> [] \<longrightarrow>
      (\<exists>h'. splice h (Some (hd (Z @ [s]))) other (Some (hd R)) (Some (hd Y)) = Some h' \<and>
         is_list h' s (A @ Y @ R @ Z) \<and> to_list h' s = Some (A @ Y @ R @ Z) \<and>
         length (A @ Y @ R @ Z) = length (A @ R @ Y @ Z) \<and>
         splice_count h (Some (hd (Z @ [s]))) other (Some (hd R)) (Some (hd Y)) = Some (h', 6) \<and>
         card {a. h' a \<noteq> h a} \<le> 6)) \<and>
   (is_list h s (A @ R @ Z) \<and> R \<noteq> [] \<longrightarrow>
      splice h (Some (hd (Z @ [s]))) other (Some (hd R)) (Some (hd (Z @ [s]))) = Some h \<and>
      splice_count h (Some (hd (Z @ [s]))) other (Some (hd R)) (Some (hd (Z @ [s]))) =
        Some (h, 6))"
proof (intro conjI impI)
  show "splice h pos other b b = Some h" by (simp add: splice_def)
next
  show "splice_count h pos other b b = Some (h, 0)" by (simp add: splice_count_def)
next
  assume a: "is_list h t (A @ R @ B) \<and> R \<noteq> [] \<and> is_list h s (X @ Y) \<and>
    set (t # A @ R @ B) \<inter> set (s # X @ Y) = {}"
  then have lt: "is_list h t (A @ R @ B)" and R: "R \<noteq> []" and ls: "is_list h s (X @ Y)"
    and dj: "set (t # A @ R @ B) \<inter> set (s # X @ Y) = {}" by simp_all
  note S = splice_other_list[OF lt ls R dj]
  note C = splice_count_six[OF S(1)[of other] range_ends_differ[OF lt R]]
  from S(1)[of other] S(2,3) to_list_is_list[OF S(2)] to_list_is_list[OF S(3)]
    changed_le_six[OF S(5)] C
  show "\<exists>h'. splice h (Some (hd (Y @ [s]))) other (Some (hd R)) (Some (hd (B @ [t]))) = Some h' \<and>
         is_list h' t (A @ B) \<and> is_list h' s (X @ R @ Y) \<and>
         to_list h' t = Some (A @ B) \<and> to_list h' s = Some (X @ R @ Y) \<and>
         length (A @ B) + length (X @ R @ Y) = length (A @ R @ B) + length (X @ Y) \<and>
         splice_count h (Some (hd (Y @ [s]))) other (Some (hd R)) (Some (hd (B @ [t]))) =
           Some (h', 6) \<and>
         card {a. h' a \<noteq> h a} \<le> 6"
    by simp
next
  assume a: "is_list h s (X @ Y @ R @ B) \<and> Y \<noteq> [] \<and> R \<noteq> []"
  then have l: "is_list h s (X @ Y @ R @ B)" and Y: "Y \<noteq> []" and R: "R \<noteq> []" by simp_all
  note S = splice_before_range[OF l Y R]
  from l have "is_list h s ((X @ Y) @ R @ B)" by simp
  note C = splice_count_six[OF S(1)[of other] range_ends_differ[OF this R]]
  from S(1)[of other] S(2) to_list_is_list[OF S(2)] changed_le_six[OF S(4)] C
  show "\<exists>h'. splice h (Some (hd Y)) other (Some (hd R)) (Some (hd (B @ [s]))) = Some h' \<and>
         is_list h' s (X @ R @ Y @ B) \<and> to_list h' s = Some (X @ R @ Y @ B) \<and>
         length (X @ R @ Y @ B) = length (X @ Y @ R @ B) \<and>
         splice_count h (Some (hd Y)) other (Some (hd R)) (Some (hd (B @ [s]))) = Some (h', 6) \<and>
         card {a. h' a \<noteq> h a} \<le> 6"
    by simp
next
  assume a: "is_list h s (A @ R @ Y @ Z) \<and> R \<noteq> [] \<and> Y \<noteq> []"
  then have l: "is_list h s (A @ R @ Y @ Z)" and R: "R \<noteq> []" and Y: "Y \<noteq> []" by simp_all
  note S = splice_after_range[OF l R Y]
  from l have "is_list h s (A @ R @ (Y @ Z))" by simp
  from range_ends_differ[OF this R] Y have ne: "hd R \<noteq> hd Y" by simp
  note C = splice_count_six[OF S(1)[of other] ne]
  from S(1)[of other] S(2) to_list_is_list[OF S(2)] changed_le_six[OF S(4)] C
  show "\<exists>h'. splice h (Some (hd (Z @ [s]))) other (Some (hd R)) (Some (hd Y)) = Some h' \<and>
         is_list h' s (A @ Y @ R @ Z) \<and> to_list h' s = Some (A @ Y @ R @ Z) \<and>
         length (A @ Y @ R @ Z) = length (A @ R @ Y @ Z) \<and>
         splice_count h (Some (hd (Z @ [s]))) other (Some (hd R)) (Some (hd Y)) = Some (h', 6) \<and>
         card {a. h' a \<noteq> h a} \<le> 6"
    by simp
next
  assume "is_list h s (A @ R @ Z) \<and> R \<noteq> []"
  then have l: "is_list h s (A @ R @ Z)" "R \<noteq> []" by simp_all
  then show "splice h (Some (hd (Z @ [s]))) other (Some (hd R)) (Some (hd (Z @ [s]))) = Some h"
    by (rule splice_at_range_end)
next
  assume "is_list h s (A @ R @ Z) \<and> R \<noteq> []"
  then have l: "is_list h s (A @ R @ Z)" "R \<noteq> []" by simp_all
  from splice_count_six[OF splice_at_range_end[OF l, of other] range_ends_differ[OF l]]
  show "splice_count h (Some (hd (Z @ [s]))) other (Some (hd R)) (Some (hd (Z @ [s]))) =
        Some (h, 6)" .
qed

theorem splice_relocates_range_witness:
  "is_list two_lists 0 [1, 2] \<and> is_list two_lists 10 [11] \<and>
   (\<exists>h'. splice two_lists (Some 10) 0 (Some 1) (Some 2) = Some h' \<and>
      to_list h' 0 = Some [2] \<and> to_list h' 10 = Some [11, 1] \<and>
      splice_count two_lists (Some 10) 0 (Some 1) (Some 2) = Some (h', 6) \<and>
      card {a. h' a \<noteq> two_lists a} \<le> 6)"
proof -
  have a: "is_list two_lists 0 ([] @ [1] @ [2]) \<and> [1::nat] \<noteq> [] \<and>
      is_list two_lists 10 ([11] @ []) \<and>
      set (0 # [] @ [1] @ [2]) \<inter> set (10 # [11] @ []) = ({}::nat set)"
    using is_list_two_lists by simp
  from splice_relocates_range[of two_lists "Some 10" 0 "Some 1" 0 "[]" "[1]" "[2]" 10 "[11]" "[]"]
  have "is_list two_lists 0 ([] @ [1] @ [2]) \<and> [1::nat] \<noteq> [] \<and>
      is_list two_lists 10 ([11] @ []) \<and>
      set (0 # [] @ [1] @ [2]) \<inter> set (10 # [11] @ []) = ({}::nat set) \<longrightarrow>
      (\<exists>h'. splice two_lists (Some (hd ([] @ [10]))) 0 (Some (hd [1])) (Some (hd ([2] @ [0]))) = Some h' \<and>
         is_list h' 0 ([] @ [2]) \<and> is_list h' 10 ([11] @ [1] @ []) \<and>
         to_list h' 0 = Some ([] @ [2]) \<and> to_list h' 10 = Some ([11] @ [1] @ []) \<and>
         length ([] @ [2::nat]) + length ([11] @ [1] @ ([]::nat list)) =
           length ([] @ [1] @ [2::nat]) + length ([11] @ ([]::nat list)) \<and>
         splice_count two_lists (Some (hd ([] @ [10]))) 0 (Some (hd [1])) (Some (hd ([2] @ [0]))) =
           Some (h', 6) \<and>
         card {a. h' a \<noteq> two_lists a} \<le> 6)"
    by blast
  with a have "\<exists>h'. splice two_lists (Some (hd ([] @ [10]))) 0 (Some (hd [1])) (Some (hd ([2] @ [0]))) = Some h' \<and>
         is_list h' 0 ([] @ [2]) \<and> is_list h' 10 ([11] @ [1] @ []) \<and>
         to_list h' 0 = Some ([] @ [2]) \<and> to_list h' 10 = Some ([11] @ [1] @ []) \<and>
         length ([] @ [2::nat]) + length ([11] @ [1] @ ([]::nat list)) =
           length ([] @ [1] @ [2::nat]) + length ([11] @ ([]::nat list)) \<and>
         splice_count two_lists (Some (hd ([] @ [10]))) 0 (Some (hd [1])) (Some (hd ([2] @ [0]))) =
           Some (h', 6) \<and>
         card {a. h' a \<noteq> two_lists a} \<le> 6"
    by (rule rev_mp)
  then have "\<exists>h'. splice two_lists (Some 10) 0 (Some 1) (Some 2) = Some h' \<and>
         is_list h' 0 [2] \<and> is_list h' 10 [11, 1] \<and>
         to_list h' 0 = Some [2] \<and> to_list h' 10 = Some [11, 1] \<and>
         splice_count two_lists (Some 10) 0 (Some 1) (Some 2) = Some (h', 6) \<and>
         card {a. h' a \<noteq> two_lists a} \<le> 6"
    by simp
  then have "\<exists>h'. splice two_lists (Some 10) 0 (Some 1) (Some 2) = Some h' \<and>
      to_list h' 0 = Some [2] \<and> to_list h' 10 = Some [11, 1] \<and>
      splice_count two_lists (Some 10) 0 (Some 1) (Some 2) = Some (h', 6) \<and>
      card {a. h' a \<noteq> two_lists a} \<le> 6"
    by blast
  with is_list_two_lists show ?thesis by simp
qed

text \<open>
  When \<open>pos\<close> is \<open>rangeBegin\<close>, a node of the range, \<open>splice\<close> still returns.  In the list
  holding \<open>1, 2\<close>, splicing the range that holds only \<open>1\<close> to the position of \<open>1\<close> makes
  \<open>1\<close> its own neighbour: no sequence describes the list any more, and the iteration
  from \<open>begin()\<close> never reaches \<open>end()\<close>.
\<close>

lemma splice_at_range_begin_unlists:
  "is_list ring3 0 [1, 2] \<and>
   (\<exists>h'. splice ring3 (Some 1) 0 (Some 1) (Some 2) = Some h' \<and>
      nxt h' 1 = Some 1 \<and> to_list h' 0 = None \<and> \<not> (\<exists>zs. is_list h' 0 zs))"
proof -
  have "\<not> (\<exists>zs. is_list broken 0 zs)"
  proof
    assume "\<exists>zs. is_list broken 0 zs"
    then obtain zs where "is_list broken 0 zs" ..
    from to_list_is_list[OF this] to_list_broken show False by simp
  qed
  moreover have "nxt broken 1 = Some 1" by (simp add: nxt_def broken_def)
  ultimately show ?thesis
    using splice_ring3_at_begin[of 0] to_list_broken is_list_ring3 by simp
qed

text \<open>
  Claim C6.  Move-constructing a list at the unused address \<open>d\<close> from the list \<open>t\<close> that
  holds \<open>ys\<close> returns; afterwards the new list holds \<open>ys\<close> in the same order, the source
  is empty (\<open>begin() == end()\<close>), so no element is a member of both, and a well-formed
  store stays well formed.
\<close>

theorem list_move_constructor_transfers_sequence:
  assumes l: "is_list h t ys" and fresh: "h d = None"
  shows "\<exists>h'. list_move_ctor h d t = Some h' \<and>
           is_list h' d ys \<and> to_list h' d = Some ys \<and>
           is_list h' t [] \<and> begin_list h' t = Some (end_list t) \<and>
           empty_list h' t = Some True \<and> to_list h' t = Some [] \<and>
           (\<forall>zs. is_list h' t zs \<longrightarrow> set zs \<inter> set ys = {}) \<and>
           dom h' = insert d (dom h) \<and> (wf h \<longrightarrow> wf h')"
proof -
  note A = allocated_simps[of h d, OF fresh]
  have l0: "is_list (allocated h d) t ys" by (rule is_list_same_links[OF l A(1,2)])
  have dd: "d \<in> dom (allocated h d)" by (simp add: A)
  have dn: "d \<notin> set (t # ys)"
  proof
    assume "d \<in> set (t # ys)"
    from is_list_dom[OF l this] fresh show False by (simp add: domIff)
  qed
  have du: "(prv (allocated h d) d = None \<and> nxt (allocated h d) d = None) \<or>
      (prv (allocated h d) d = Some d \<and> nxt (allocated h d) d = Some d)"
    using fresh by (simp add: A nxt_def prv_def)
  from move_list_lists[OF l0 dd dn du] obtain h' where
    h': "move_list (allocated h d) d t = Some h'" "dom h' = dom (allocated h d)"
      "is_list h' d ys" "is_list h' t []" "wf (allocated h d) \<longrightarrow> wf h'" by blast
  have m: "list_move_ctor h d t = Some h'"
    using h'(1) fresh by (simp add: list_move_ctor_def ctor_eff)
  have w: "wf h \<longrightarrow> wf h'" using h'(5) wf_same_links[OF _ A(1,2)] by blast
  have e: "begin_list h' t = Some (end_list t)" "empty_list h' t = Some True"
    using is_list_begin[OF h'(4)] by (simp_all add: empty_list_def end_list_def)
  have two: "set zs \<inter> set ys = {}" if "is_list h' t zs" for zs
    using to_list_is_list[OF that] to_list_is_list[OF h'(4)] by simp
  from m h'(2,3,4) to_list_is_list[OF h'(3)] to_list_is_list[OF h'(4)] e two w A(3)
  show ?thesis by simp
qed

theorem list_move_constructor_transfers_sequence_witness:
  "is_list ring3 0 [1, 2] \<and> ring3 5 = None \<and>
   (\<exists>h'. list_move_ctor ring3 5 0 = Some h' \<and> to_list h' 5 = Some [1, 2] \<and>
      to_list h' 0 = Some [] \<and> begin_list h' 0 = Some (end_list 0))"
proof -
  have f: "ring3 5 = None" by (simp add: ring3_def)
  from list_move_constructor_transfers_sequence[OF is_list_ring3 f] is_list_ring3 f
  show ?thesis by blast
qed

text \<open>
  Claim C7.  Destroying a linked node \<open>x\<close> of a well-formed store first removes it and
  then releases it: the destructor returns, the node is gone, its former neighbours
  \<open>p\<close> and \<open>n\<close> reference each other (when \<open>x\<close> was not its own neighbour), no node that
  is still alive references \<open>x\<close>, and every list that held \<open>x\<close> now holds the same
  sequence without \<open>x\<close>, which is what its iteration visits.
\<close>

theorem destructor_removes_before_release:
  assumes w: "wf h" and lk: "prv h x = Some p"
  shows "\<exists>h' n. base_list_element_dtor h x = Some h' \<and> nxt h x = Some n \<and>
           h' = (removed h x)(x := None) \<and> h' x = None \<and> dom h' = dom h - {x} \<and>
           (p \<noteq> x \<longrightarrow> nxt h' p = Some n \<and> prv h' n = Some p) \<and>
           (\<forall>a e. h' a = Some e \<longrightarrow> prev e \<noteq> Some x \<and> next e \<noteq> Some x) \<and>
           wf h' \<and>
           (\<forall>s xs. is_list h s xs \<and> x \<noteq> s \<longrightarrow>
              is_list h' s (remove1 x xs) \<and> to_list h' s = Some (remove1 x xs) \<and>
              x \<notin> set (remove1 x xs))"
proof -
  from wf_prv_ex[OF w lk] obtain n where n: "nxt h x = Some n" "n \<in> dom h" "p \<in> dom h" by blast
  note D = dtor_linked[OF w lk]
  note R = removed_simps[OF lk n(1) n(3) n(2)]
  let ?h' = "(removed h x)(x := None)"
  have w': "wf ?h'" by (rule wf_same_links[OF wf_removed[OF w lk] D(2,3)])
  have nb: "nxt ?h' p = Some n \<and> prv ?h' n = Some p" if "p \<noteq> x"
  proof -
    from wf_self_tied[OF w lk n(1)] that have "n \<noteq> x" by simp
    with that show ?thesis by (simp add: D(2,3) R)
  qed
  have gone: "prv ?h' x = None" "nxt ?h' x = None" by (simp_all add: nxt_def prv_def)
  have noref: "prev e \<noteq> Some x \<and> next e \<noteq> Some x" if "?h' a = Some e" for a e
  proof -
    from that have "prv ?h' a = prev e" "nxt ?h' a = next e" by (simp_all add: nxt_def prv_def)
    with wf_nxt_prv[OF w', of a x] wf_nxt_prv[OF w', of x a] gone show ?thesis by auto
  qed
  have lists: "is_list ?h' s (remove1 x xs) \<and> to_list ?h' s = Some (remove1 x xs) \<and>
              x \<notin> set (remove1 x xs)" if "is_list h s xs" "x \<noteq> s" for s xs
  proof -
    from detached_is_list[OF w that] lk have "is_list (removed h x) s (remove1 x xs)"
      by (simp add: detached_def)
    from is_list_same_links[OF this D(2,3)] have l': "is_list ?h' s (remove1 x xs)" .
    from that(1) have "distinct xs" by (simp add: is_list_def)
    with l' to_list_is_list[OF l'] show ?thesis by simp
  qed
  from D(1,4) n(1) w' nb noref lists show ?thesis by auto
qed

theorem destructor_removes_before_release_witness:
  "wf ring3 \<and> prv ring3 1 = Some 0 \<and> is_list ring3 0 [1, 2] \<and>
   (\<exists>h'. base_list_element_dtor ring3 1 = Some h' \<and> h' 1 = None \<and>
      nxt h' 0 = Some 2 \<and> prv h' 2 = Some 0 \<and> to_list h' 0 = Some [2])"
proof -
  have p: "prv ring3 1 = Some 0" by (simp add: prv_def ring3_def)
  from destructor_removes_before_release[OF wf_ring3 p] obtain h' n where
    h': "base_list_element_dtor ring3 1 = Some h'" "nxt ring3 1 = Some n" "h' 1 = None"
      "(0::nat) \<noteq> 1 \<longrightarrow> nxt h' 0 = Some n \<and> prv h' n = Some 0"
      "\<forall>s xs. is_list ring3 s xs \<and> 1 \<noteq> s \<longrightarrow>
              is_list h' s (remove1 1 xs) \<and> to_list h' s = Some (remove1 1 xs) \<and>
              1 \<notin> set (remove1 1 xs)"
    by blast
  from h'(2) have "n = 2" by (simp add: nxt_def ring3_def)
  moreover from h'(5)[rule_format, of 0 "[1, 2]"] is_list_ring3
  have "to_list h' 0 = Some [2]" by simp
  ultimately show ?thesis using h' p wf_ring3 is_list_ring3 by auto
qed

text \<open>
  Claim C8, the part about \<open>base_list_element\<close>.  Let the source \<open>x\<close> be linked in a
  well-formed store, with neighbours other than itself (a member of a list always has
  such neighbours: the ring holds the sentinel), and let \<open>d\<close> be unused storage.  The
  move constructor returns; the former neighbours of \<open>x\<close> reference \<open>d\<close>, \<open>d\<close>
  references them, \<open>x\<close> is alive and unlinked, and every list that held \<open>x\<close> holds \<open>d\<close>
  in its place.
\<close>

theorem move_constructor_takes_ring_position:
  assumes w: "wf h" and fresh: "h d = None" and lk: "prv h x = Some p" and ns: "p \<noteq> x"
  shows "\<exists>h' n. base_list_element_move h d x = Some h' \<and> nxt h x = Some n \<and>
           nxt h' p = Some d \<and> prv h' n = Some d \<and>
           nxt h' d = Some n \<and> prv h' d = Some p \<and>
           h' x = Some \<lparr>prev = None, next = None\<rparr> \<and>
           dom h' = insert d (dom h) \<and> wf h' \<and>
           (\<forall>s xs. is_list h s xs \<and> x \<in> set xs \<longrightarrow>
              is_list h' s (map (\<lambda>a. if a = x then d else a) xs) \<and>
              to_list h' s = Some (map (\<lambda>a. if a = x then d else a) xs))"
proof -
  from wf_prv_ex[OF w lk] obtain n where n: "nxt h x = Some n" "n \<in> dom h" "p \<in> dom h" by blast
  have nx: "n \<noteq> x" using wf_self_tied[OF w lk n(1)] ns by simp
  have xd: "x \<in> dom h" using lk by (rule prv_dom)
  from fresh have dn: "d \<notin> dom h" by (simp add: domIff)
  with n xd have neq: "p \<noteq> d" "n \<noteq> d" "x \<noteq> d" by auto
  note M = move_linked[OF w fresh lk ns]
  let ?h' = "moved h d x"
  have links: "nxt ?h' p = Some d" "prv ?h' n = Some d" "nxt ?h' d = Some n" "prv ?h' d = Some p"
    "nxt ?h' x = None" "prv ?h' x = None"
    using neq ns nx n(1) by (simp_all add: M(2,3))
  have xd': "x \<in> dom ?h'" using xd by (simp add: M(4))
  have un: "?h' x = Some \<lparr>prev = None, next = None\<rparr>"
    by (rule node_unlinked[OF xd' links(5,6)])
  have lists: "is_list ?h' s (map (\<lambda>a. if a = x then d else a) xs) \<and>
              to_list ?h' s = Some (map (\<lambda>a. if a = x then d else a) xs)"
    if "is_list h s xs" "x \<in> set xs" for s xs
    using is_list_moved[OF w that fresh] to_list_is_list by blast
  from M(1,4) n(1) links(1-4) un wf_moved[OF w fresh lk ns] lists show ?thesis by blast
qed

theorem move_constructor_takes_ring_position_witness:
  "wf ring3 \<and> ring3 5 = None \<and> prv ring3 1 = Some 0 \<and> (0::nat) \<noteq> 1 \<and>
   (\<exists>h'. base_list_element_move ring3 5 1 = Some h' \<and>
      nxt h' 0 = Some 5 \<and> prv h' 2 = Some 5 \<and>
      h' 1 = Some \<lparr>prev = None, next = None\<rparr> \<and> to_list h' 0 = Some [5, 2])"
proof -
  have f: "ring3 5 = None" by (simp add: ring3_def)
  have p: "prv ring3 1 = Some 0" by (simp add: prv_def ring3_def)
  have ne: "(0::nat) \<noteq> 1" by simp
  from move_constructor_takes_ring_position[OF wf_ring3 f p ne] obtain h' n where
    h': "base_list_element_move ring3 5 1 = Some h'" "nxt ring3 1 = Some n"
      "nxt h' 0 = Some 5" "prv h' n = Some 5" "h' 1 = Some \<lparr>prev = None, next = None\<rparr>"
      "\<forall>s xs. is_list ring3 s xs \<and> 1 \<in> set xs \<longrightarrow>
              is_list h' s (map (\<lambda>a. if a = 1 then 5 else a) xs) \<and>
              to_list h' s = Some (map (\<lambda>a. if a = 1 then 5 else a) xs)"
    by blast
  from h'(2) have "n = 2" by (simp add: nxt_def ring3_def)
  moreover from h'(6)[rule_format, of 0 "[1, 2]"] is_list_ring3
  have "to_list h' 0 = Some [5, 2]" by simp
  ultimately show ?thesis using h' f p wf_ring3 by auto
qed

text \<open>
  Claim C9 (as amended).  Take a well-formed store and a sequence of public operations
  (construction, move and destruction of nodes and of lists, insert, erase, push, pop,
  splice) in which no node is move-constructed from a source that is its own neighbour
  and no \<open>splice\<close> of a non-empty range has \<open>pos == rangeBegin\<close>.  If the sequence returns,
  the store is well formed again; there the two references of every live node are both
  null or both non-null, and \<open>is_linked\<close>, which reads \<open>prev\<close> only, reports whether the
  node has any neighbour reference.
\<close>

theorem public_operations_keep_node_invariant:
  assumes w: "wf h" and pre: "calls_pre h cs" and r: "run_calls h cs = Some h'"
  shows "wf h' \<and> node_inv h' \<and>
    (\<forall>a e. h' a = Some e \<longrightarrow> is_linked h' (Some a) = Some (prev e \<noteq> None \<or> next e \<noteq> None))"
proof -
  have w': "wf h'" by (rule run_calls_wf[OF w pre r])
  have "is_linked h' (Some a) = Some (prev e \<noteq> None \<or> next e \<noteq> None)" if "h' a = Some e" for a e
    using that wf_linked_both[OF w', of a] by (auto simp: is_linked_def get_prev_def nxt_def prv_def)
  with w' wf_node_inv[OF w'] show ?thesis by blast
qed

theorem public_operations_keep_node_invariant_witness:
  "wf Map.empty \<and> calls_pre Map.empty session \<and>
   (\<exists>h'. run_calls Map.empty session = Some h' \<and> wf h' \<and> node_inv h' \<and>
     is_linked h' (Some 6) = Some False \<and> is_linked h' (Some 1) = Some True \<and>
     nxt h' 5 = Some 5 \<and> nxt h' 0 = Some 1 \<and> nxt h' 1 = Some 0)"
proof -
  from session_runs obtain h' where h': "run_calls Map.empty session = Some h'" by blast
  from public_operations_keep_node_invariant[OF wf_empty session_pre h'] session_linked h'
    wf_empty session_pre
  show ?thesis by simp
qed

text \<open>
  The claim names no condition on the calls.  From the empty store, where the node
  invariant holds, the session \<open>session_splice_at_begin\<close> returns: its splice has
  \<open>pos == rangeBegin\<close>, and after the \<open>erase\<close> and the move construction of the list that
  follow, node \<open>1\<close> has a \<open>prev\<close> and no \<open>next\<close>.  The session \<open>session_move_self_tied\<close>
  returns as well: the node \<open>0\<close>, which was its own neighbour when the new node was
  move-constructed from it, ends with a \<open>next\<close> and no \<open>prev\<close>, and \<open>is_linked\<close> says that
  it is not linked.
\<close>

theorem splice_at_range_begin_breaks_node_invariant_counterexample:
  "node_inv Map.empty \<and>
   (\<exists>h'. run_calls Map.empty session_splice_at_begin = Some h' \<and>
      h' 1 = Some \<lparr>prev = Some 5, next = None\<rparr> \<and> \<not> node_inv h') \<and>
   (\<exists>h'. run_calls Map.empty session_move_self_tied = Some h' \<and>
      h' 0 = Some \<lparr>prev = None, next = Some 5\<rparr> \<and> \<not> node_inv h' \<and>
      is_linked h' (Some 0) = Some False)"
proof -
  from session_splice_at_begin_runs obtain h1 where
    h1: "run_calls Map.empty session_splice_at_begin = Some h1"
      "h1 1 = Some \<lparr>prev = Some 5, next = None\<rparr>" by auto
  from not_node_inv[of h1 1, OF h1(2)] have n1: "\<not> node_inv h1" by simp
  from session_move_self_tied_runs obtain h2 where
    h2: "run_calls Map.empty session_move_self_tied = Some h2"
      "h2 0 = Some \<lparr>prev = None, next = Some 5\<rparr>" "is_linked h2 (Some 0) = Some False" by auto
  from not_node_inv[of h2 0, OF h2(2)] have n2: "\<not> node_inv h2" by simp
  have "node_inv Map.empty" by (simp add: node_inv_def)
  with h1 n1 h2 n2 show ?thesis by blast
qed

end
